theory Spec2Isabelle
  imports Main "HOL-Library.Sublist"
begin

section \<open>Errors\<close>

text \<open>
  Every \<open>throw\<close> of the modelled code is a value of this type. \<open>bad_value\<close> is what
  \<open>TypeError.badValue\<close> raises (the range checks of \<open>RevisionNumber\<close>, the check of a
  decoded change); \<open>path_not_empty\<close> and \<open>path_not_found\<close> are the storage layer's errors
  for a failed \<open>checkPathEmpty\<close> and \<open>checkPathExists\<close>; \<open>Error m\<close> is a plain
  \<open>new Error(m)\<close>, which has a message and no kind. \<open>revision_not_available\<close> and
  \<open>too_many_retries\<close> are kinds of the wire taxonomy that none of the modelled functions
  raises.
\<close>

datatype error =
    bad_value
  | path_not_empty
  | path_not_found
  | revision_not_available
  | too_many_retries
  | Error string

section \<open>The delta algebra\<close>

text \<open>
  \<open>FrozenDelta\<close> is used through \<open>compose\<close>, \<open>transform\<close>, \<open>diff\<close>, \<open>isEmpty\<close>,
  \<open>isDocument\<close> and the constant \<open>EMPTY\<close> only; its class is not among the sources at
  hand, so the operations are a parameter of every function of the controller.
  \<open>transform a b p\<close> is \<open>a.transform(b, p)\<close>.
\<close>

record 'd algebra =
  compose :: "'d \<Rightarrow> 'd \<Rightarrow> 'd"
  transform :: "'d \<Rightarrow> 'd \<Rightarrow> bool \<Rightarrow> 'd"
  diff :: "'d \<Rightarrow> 'd \<Rightarrow> 'd"
  isEmpty :: "'d \<Rightarrow> bool"
  isDocument :: "'d \<Rightarrow> bool"
  EMPTY :: 'd

section \<open>Changes, snapshots, results\<close>

text \<open>
  The constructors take their arguments in the order of the source:
  \<open>new DocumentChange(revNum, timestamp, delta, authorId)\<close>,
  \<open>new Snapshot(revNum, contents)\<close>, \<open>new DeltaResult(revNum, delta)\<close>.
  A missing timestamp or author is \<open>None\<close>.
\<close>

datatype 'd DocumentChange =
  DocumentChange (change_revNum: nat) (timestamp: "nat option") (delta: 'd) (authorId: "string option")

datatype 'd Snapshot = Snapshot (revNum: nat) (contents: 'd)

datatype 'd DeltaResult = DeltaResult (result_revNum: nat) (result_delta: 'd)

definition firstChange :: "'d algebra \<Rightarrow> 'd DocumentChange" where
  "firstChange A = DocumentChange 0 None (EMPTY A) None"

section \<open>Storage paths and stored values\<close>

text \<open>
  Modelled from the spec: the paths of the persisted layout that the controller names
  (\<open>Paths.FORMAT_VERSION\<close>, \<open>Paths.REVISION_NUMBER\<close>, \<open>Paths.forRevNum\<close>; the
  \<open>Paths\<close> class of this version of the controller is not among the sources).
  \<open>forRevNum n\<close> is the path of change \<open>n\<close>; distinct revision numbers have distinct
  paths, none of which is \<open>REVISION_NUMBER\<close> or \<open>FORMAT_VERSION\<close>.
\<close>

datatype path = FORMAT_VERSION | REVISION_NUMBER | forRevNum nat

text \<open>
  What \<open>_encode\<close> produces and the file codec decodes. The codec is not among the
  sources and is taken to be lossless, so an encoded value is the value itself, tagged
  with what it is.
\<close>

datatype 'd stored = enc_string string | enc_revNum nat | enc_change "'d DocumentChange"

type_synonym 'd docfile = "path \<Rightarrow> 'd stored option"

section \<open>File operations and transaction specifications\<close>

datatype op_category =
  CAT_DELETE | CAT_ENVIRONMENT | CAT_LIST | CAT_PREREQUISITE | CAT_READ | CAT_REVISION | CAT_WAIT
  | CAT_WRITE

text \<open>
  Modelled from the spec: \<open>FileOp\<close> (its file is not among the sources). The operations are
  those the controller, \<open>TransactionSpec\<close> and the tests of \<open>transact\<close> name, and
  \<open>op_wait\<close> stands for an operation of category \<open>CAT_WAIT\<close>.
\<close>

datatype ('p, 'v) FileOp =
    op_checkPathEmpty 'p
  | op_checkPathExists 'p
  | op_deletePath 'p
  | op_listPath 'p
  | op_readPath 'p
  | op_revNum nat
  | op_timeout nat
  | op_wait 'p
  | op_writePath 'p 'v

fun category :: "('p, 'v) FileOp \<Rightarrow> op_category" where
  "category (op_checkPathEmpty p) = CAT_PREREQUISITE"
| "category (op_checkPathExists p) = CAT_PREREQUISITE"
| "category (op_deletePath p) = CAT_DELETE"
| "category (op_listPath p) = CAT_LIST"
| "category (op_readPath p) = CAT_READ"
| "category (op_revNum n) = CAT_REVISION"
| "category (op_timeout n) = CAT_ENVIRONMENT"
| "category (op_wait p) = CAT_WAIT"
| "category (op_writePath p v) = CAT_WRITE"

fun name :: "('p, 'v) FileOp \<Rightarrow> string" where
  "name (op_checkPathEmpty p) = ''checkPathEmpty''"
| "name (op_checkPathExists p) = ''checkPathExists''"
| "name (op_deletePath p) = ''deletePath''"
| "name (op_listPath p) = ''listPath''"
| "name (op_readPath p) = ''readPath''"
| "name (op_revNum n) = ''revNum''"
| "name (op_timeout n) = ''timeout''"
| "name (op_wait p) = ''wait''"
| "name (op_writePath p v) = ''writePath''"

text \<open>
  Modelled from the spec: \<open>FileOp.sortByCategory\<close>, a stable sort by category, in the
  order in which a transaction executes the categories: the environment and the
  revision restriction, then the prerequisite checks, the lists and reads, the deletes
  and writes, and last the waits.
\<close>

definition opsWithCategory :: "('p, 'v) FileOp list \<Rightarrow> op_category \<Rightarrow> ('p, 'v) FileOp list" where
  "opsWithCategory ops c = filter (\<lambda>op. category op = c) ops"

definition opsWithName :: "('p, 'v) FileOp list \<Rightarrow> string \<Rightarrow> ('p, 'v) FileOp list" where
  "opsWithName ops n = filter (\<lambda>op. name op = n) ops"

definition sortByCategory :: "('p, 'v) FileOp list \<Rightarrow> ('p, 'v) FileOp list" where
  "sortByCategory ops =
     opsWithCategory ops CAT_ENVIRONMENT @ opsWithCategory ops CAT_REVISION
     @ opsWithCategory ops CAT_PREREQUISITE @ opsWithCategory ops CAT_LIST
     @ opsWithCategory ops CAT_READ @ opsWithCategory ops CAT_DELETE
     @ opsWithCategory ops CAT_WRITE @ opsWithCategory ops CAT_WAIT"

definition hasModificationOps :: "('p, 'v) FileOp list \<Rightarrow> bool" where
  "hasModificationOps ops =
     (length (opsWithCategory ops CAT_DELETE) \<noteq> 0 \<or> length (opsWithCategory ops CAT_WRITE) \<noteq> 0)"

definition hasReadOps :: "('p, 'v) FileOp list \<Rightarrow> bool" where
  "hasReadOps ops = (length (opsWithCategory ops CAT_READ) \<noteq> 0)"

definition hasWaitOps :: "('p, 'v) FileOp list \<Rightarrow> bool" where
  "hasWaitOps ops = (length (opsWithCategory ops CAT_WAIT) \<noteq> 0)"

text \<open>
  The constructor of \<open>TransactionSpec\<close> binds \<open>waitCount\<close> to the array
  \<open>this.opsWithCategory(FileOp.CAT_WAIT)\<close>, not to its length, and compares that array
  with numbers. In JavaScript \<open>array === 1\<close> compares an object with a number and is
  false whatever the array holds; \<open>array > 1\<close> converts the array to a number through
  its string form, which is the empty string (the number 0) for the empty array and the
  text of the operation objects, not a numeral and so \<open>NaN\<close>, otherwise.
\<close>

datatype jsnumber = NaN | Num int

definition array_strict_eq_number :: "'a list \<Rightarrow> int \<Rightarrow> bool" where
  "array_strict_eq_number xs n = False"

definition array_to_number :: "'a list \<Rightarrow> jsnumber" where
  "array_to_number xs = (if xs = [] then Num 0 else NaN)"

fun number_gt :: "jsnumber \<Rightarrow> int \<Rightarrow> bool" where
  "number_gt NaN n = False"
| "number_gt (Num a) n = (a > n)"

text \<open>
  \<open>new TransactionSpec(...ops)\<close>: the category-sorted operations, or the message of the
  error thrown.
\<close>

definition TransactionSpec :: "('p, 'v) FileOp list \<Rightarrow> string + ('p, 'v) FileOp list" where
  "TransactionSpec ops =
     (let ops' = sortByCategory ops in
      if length (opsWithName ops' ''timeout'') > 1 then Inl ''Too many `timeout` operations.''
      else if length (opsWithName ops' ''revNum'') > 1 then Inl ''Too many `revNum` operations.''
      else
        let waitCount = opsWithCategory ops' CAT_WAIT in
        if array_strict_eq_number waitCount 1 then
          (if hasReadOps ops' \<or> hasModificationOps ops'
           then Inl ''Cannot mix wait operations with reads and modifications.''
           else Inr ops')
        else if number_gt (array_to_number waitCount) 1 then Inl ''Too many wait operations.''
        else Inr ops')"

section \<open>The file store\<close>

text \<open>
  Modelled from the spec: \<open>BaseFile.transact\<close> (the file store is not among the
  sources). A transaction runs the operations of its specification in their sorted
  order on the stored paths and either commits as a whole, returning the new file and
  the data read, or raises and leaves the file as it was: \<open>checkPathEmpty\<close> raises
  \<open>path_not_empty\<close> on a bound path, \<open>checkPathExists\<close> raises \<open>path_not_found\<close> on an
  unbound one, \<open>readPath\<close> adds the path's value, if any, to the data. The operations
  that do not touch the stored paths (timeout, revision restriction, list, wait) are
  passed over.
\<close>

fun run_ops ::
  "('p \<Rightarrow> 'v option) \<Rightarrow> ('p \<Rightarrow> 'v option) \<Rightarrow> ('p, 'v) FileOp list
   \<Rightarrow> error + (('p \<Rightarrow> 'v option) \<times> ('p \<Rightarrow> 'v option))" where
  "run_ops f d [] = Inr (f, d)"
| "run_ops f d (op_checkPathEmpty p # ops) =
     (if f p = None then run_ops f d ops else Inl path_not_empty)"
| "run_ops f d (op_checkPathExists p # ops) =
     (if f p = None then Inl path_not_found else run_ops f d ops)"
| "run_ops f d (op_deletePath p # ops) = run_ops (f(p := None)) d ops"
| "run_ops f d (op_listPath p # ops) = run_ops f d ops"
| "run_ops f d (op_readPath p # ops) =
     run_ops f (case f p of None \<Rightarrow> d | Some v \<Rightarrow> d(p \<mapsto> v)) ops"
| "run_ops f d (op_revNum n # ops) = run_ops f d ops"
| "run_ops f d (op_timeout n # ops) = run_ops f d ops"
| "run_ops f d (op_wait p # ops) = run_ops f d ops"
| "run_ops f d (op_writePath p v # ops) = run_ops (f(p \<mapsto> v)) d ops"

definition transact ::
  "('p \<Rightarrow> 'v option) \<Rightarrow> ('p, 'v) FileOp list
   \<Rightarrow> error + (('p \<Rightarrow> 'v option) \<times> ('p \<Rightarrow> 'v option))" where
  "transact f spec = run_ops f Map.empty spec"

text \<open>
  \<open>file.transact(new TransactionSpec(...ops))\<close>: an error of the constructor is thrown
  before the file is reached.
\<close>

definition transact_new ::
  "('p \<Rightarrow> 'v option) \<Rightarrow> ('p, 'v) FileOp list
   \<Rightarrow> error + (('p \<Rightarrow> 'v option) \<times> ('p \<Rightarrow> 'v option))" where
  "transact_new f ops =
     (case TransactionSpec ops of Inl m \<Rightarrow> Inl (Error m) | Inr spec \<Rightarrow> transact f spec)"

section \<open>The document controller\<close>

definition INITIAL_APPEND_RETRY_MSEC :: nat where
  "INITIAL_APPEND_RETRY_MSEC = 50"

definition APPEND_RETRY_GROWTH_FACTOR :: nat where
  "APPEND_RETRY_GROWTH_FACTOR = 5"

definition MAX_APPEND_TIME_MSEC :: nat where
  "MAX_APPEND_TIME_MSEC = 20 * 1000"

definition MAX_CHANGE_READS_PER_TRANSACTION :: nat where
  "MAX_CHANGE_READS_PER_TRANSACTION = 20"

text \<open>
  The instance's \<open>_snapshots\<close>: a sparse map from revision numbers to snapshots.
\<close>

type_synonym 'd cache = "nat \<Rightarrow> 'd Snapshot option"

text \<open>
  Revision numbers are natural numbers: \<open>RevisionNumber.check\<close> rejects every other
  value before it is used. \<open>maxInc v m\<close> is \<open>RevisionNumber.maxInc\<close> (in the sources
  under its earlier name \<open>VersionNumber.maxInc\<close>): the value if it is in the range from
  0 to the inclusive maximum, and \<open>TypeError.badValue\<close> thrown otherwise. \<open>minInc v m\<close>
  is \<open>RevisionNumber.min\<close>, its counterpart for an inclusive minimum.
\<close>

definition maxInc :: "nat \<Rightarrow> nat \<Rightarrow> error + nat" where
  "maxInc v m = (if v \<le> m then Inr v else Inl bad_value)"

definition minInc :: "nat \<Rightarrow> nat \<Rightarrow> error + nat" where
  "minInc v m = (if m \<le> v then Inr v else Inl bad_value)"

subsection \<open>Reading\<close>

text \<open>
  \<open>_currentRevNums\<close>: the document revision number, read in a transaction that first
  checks that the path is bound. Every caller uses the decoded value as a number, so a
  stored value that is not a number is a bad value. (The file revision number of the
  result is used only to wait for a change, and is left out.)
\<close>

definition currentRevNums :: "'d docfile \<Rightarrow> error + nat" where
  "currentRevNums f =
     (case transact_new f [op_checkPathExists REVISION_NUMBER, op_readPath REVISION_NUMBER] of
        Inl e \<Rightarrow> Inl e
      | Inr (f', data) \<Rightarrow>
          (case data REVISION_NUMBER of
             Some (enc_revNum n) \<Rightarrow> Inr n
           | _ \<Rightarrow> Inl bad_value))"

text \<open>\<open>DocumentChange.check\<close> on each value read, in order.\<close>

fun check_changes :: "'d stored option list \<Rightarrow> error + 'd DocumentChange list" where
  "check_changes [] = Inr []"
| "check_changes (Some (enc_change c) # vs) =
     (case check_changes vs of Inl e \<Rightarrow> Inl e | Inr cs \<Rightarrow> Inr (c # cs))"
| "check_changes (v # vs) = Inl bad_value"

definition readChangeRange :: "'d docfile \<Rightarrow> nat \<Rightarrow> nat \<Rightarrow> error + 'd DocumentChange list" where
  "readChangeRange f start endExc =
     (case minInc endExc start of
        Inl e \<Rightarrow> Inl e
      | Inr _ \<Rightarrow>
          if endExc - start > MAX_CHANGE_READS_PER_TRANSACTION
          then Inl (Error ''Too many changes requested at once.'')
          else if start = endExc then
            (if start \<noteq> 0 then
               (case currentRevNums f of
                  Inl e \<Rightarrow> Inl e
                | Inr docRevNum \<Rightarrow>
                    (case maxInc start (docRevNum + 1) of Inl e \<Rightarrow> Inl e | Inr _ \<Rightarrow> Inr []))
             else Inr [])
          else
            (let paths = map forRevNum [start..<endExc];
                 ops = concat (map (\<lambda>p. [op_checkPathExists p, op_readPath p]) paths)
             in case transact_new f ops of
                  Inl e \<Rightarrow> Inl e
                | Inr (f', data) \<Rightarrow> check_changes (map data paths)))"

text \<open>
  The loop of \<open>_composeRevisions\<close>: batches of at most
  \<open>MAX_CHANGE_READS_PER_TRANSACTION\<close> changes, each composed onto the result so far.
\<close>

function composeRevisions_loop ::
  "'d algebra \<Rightarrow> 'd docfile \<Rightarrow> 'd \<Rightarrow> nat \<Rightarrow> nat \<Rightarrow> error + 'd" where
  "composeRevisions_loop A f result i endExclusive =
     (if i < endExclusive then
        (case readChangeRange f i (min (i + MAX_CHANGE_READS_PER_TRANSACTION) endExclusive) of
           Inl e \<Rightarrow> Inl e
         | Inr changes \<Rightarrow>
             composeRevisions_loop A f (foldl (\<lambda>r c. compose A r (delta c)) result changes)
               (i + MAX_CHANGE_READS_PER_TRANSACTION) endExclusive)
      else Inr result)"
  by pat_completeness auto
termination
  by (relation "measure (\<lambda>(A, f, result, i, endExclusive). endExclusive - i)")
     (auto simp: MAX_CHANGE_READS_PER_TRANSACTION_def)

declare composeRevisions_loop.simps [simp del]

definition composeRevisions :: "'d algebra \<Rightarrow> 'd docfile \<Rightarrow> 'd \<Rightarrow> nat \<Rightarrow> nat \<Rightarrow> error + 'd" where
  "composeRevisions A f baseDelta startInclusive endExclusive =
     (if startInclusive = endExclusive then
        (case readChangeRange f startInclusive startInclusive of
           Inl e \<Rightarrow> Inl e
         | Inr _ \<Rightarrow> Inr baseDelta)
      else composeRevisions_loop A f baseDelta startInclusive endExclusive)"

text \<open>
  The backward search of \<open>snapshot\<close> for a cached base: the entry with the greatest key
  no greater than \<open>i\<close>, if any.
\<close>

fun find_base :: "'d cache \<Rightarrow> nat \<Rightarrow> 'd Snapshot option" where
  "find_base S 0 = S 0"
| "find_base S (Suc i) = (case S (Suc i) of Some v \<Rightarrow> Some v | None \<Rightarrow> find_base S i)"

text \<open>
  \<open>snapshot(revNum)\<close>, with \<open>None\<close> for \<open>null\<close>: the snapshot and the cache after the
  call. The file is only read.
\<close>

definition snapshot ::
  "'d algebra \<Rightarrow> 'd docfile \<Rightarrow> 'd cache \<Rightarrow> nat option \<Rightarrow> error + ('d Snapshot \<times> 'd cache)" where
  "snapshot A f S requested =
     (case currentRevNums f of
        Inl e \<Rightarrow> Inl e
      | Inr currentRevNum \<Rightarrow>
          (case (case requested of None \<Rightarrow> Inr currentRevNum | Some r \<Rightarrow> maxInc r currentRevNum) of
             Inl e \<Rightarrow> Inl e
           | Inr r \<Rightarrow>
               (case find_base S r of
                  Some base \<Rightarrow>
                    if revNum base = r then Inr (base, S)
                    else
                      (case composeRevisions A f (contents base) (revNum base + 1) (r + 1) of
                         Inl e \<Rightarrow> Inl e
                       | Inr c \<Rightarrow> Inr (Snapshot r c, S(r \<mapsto> Snapshot r c)))
                | None \<Rightarrow>
                    (case composeRevisions A f (EMPTY A) 0 (r + 1) of
                       Inl e \<Rightarrow> Inl e
                     | Inr c \<Rightarrow> Inr (Snapshot r c, S(r \<mapsto> Snapshot r c))))))"

text \<open>
  \<open>deltaAfter\<close> iterates until the head is past the base revision, waiting for a change
  of the file between two iterations. The list holds the state of the file at each
  iteration; when it is used up the call is still waiting (\<open>None\<close>).
\<close>

fun deltaAfter ::
  "'d algebra \<Rightarrow> 'd docfile list \<Rightarrow> nat \<Rightarrow> (error + 'd DeltaResult) option" where
  "deltaAfter A [] baseRevNum = None"
| "deltaAfter A (f # fs) baseRevNum =
     (case currentRevNums f of
        Inl e \<Rightarrow> Some (Inl e)
      | Inr docRevNum \<Rightarrow>
          (case maxInc baseRevNum docRevNum of
             Inl e \<Rightarrow> Some (Inl e)
           | Inr _ \<Rightarrow>
               if baseRevNum < docRevNum then
                 (case composeRevisions A f (EMPTY A) (baseRevNum + 1) (docRevNum + 1) of
                    Inl e \<Rightarrow> Some (Inl e)
                  | Inr d \<Rightarrow> Some (Inr (DeltaResult docRevNum d)))
               else deltaAfter A fs baseRevNum))"

subsection \<open>Writing\<close>

text \<open>
  \<open>create(contents)\<close> on the file as \<open>file.create()\<close> leaves it: the file after the
  transaction and the emptied cache, or the error. \<open>now\<close> is \<open>Timestamp.now()\<close>.
\<close>

definition create ::
  "'d algebra \<Rightarrow> string \<Rightarrow> 'd option \<Rightarrow> nat \<Rightarrow> 'd docfile \<Rightarrow> error + ('d docfile \<times> 'd cache)" where
  "create A formatVersion cts now f =
     (let change0 = firstChange A;
          maybeChange1 =
            (case cts of
               None \<Rightarrow> []
             | Some c \<Rightarrow> [op_writePath (forRevNum 1) (enc_change (DocumentChange 1 (Some now) c None))]);
          initialRevNum = (if cts = None then 0 else 1)
      in case transact_new f
              ([op_checkPathEmpty FORMAT_VERSION,
                op_checkPathEmpty REVISION_NUMBER,
                op_writePath FORMAT_VERSION (enc_string formatVersion),
                op_writePath REVISION_NUMBER (enc_revNum initialRevNum),
                op_writePath (forRevNum 0) (enc_change change0)] @ maybeChange1) of
           Inl e \<Rightarrow> Inl e
         | Inr (f', data) \<Rightarrow> Inr (f', Map.empty))"

text \<open>
  \<open>_appendDelta\<close>: the outcome (\<open>Some\<close> of the new revision number, or \<open>None\<close> for a
  lost race, or the error thrown) and the file afterwards.
\<close>

definition appendDelta ::
  "'d algebra \<Rightarrow> 'd docfile \<Rightarrow> nat \<Rightarrow> 'd \<Rightarrow> string option \<Rightarrow> nat
   \<Rightarrow> (error + nat option) \<times> 'd docfile" where
  "appendDelta A f baseRevNum d author now =
     (if isEmpty A d then (Inl (Error ''Should not have been called with an empty delta.''), f)
      else
        (let newRevNum = baseRevNum + 1;
             changePath = forRevNum newRevNum;
             change = DocumentChange newRevNum (Some now) d author
         in case transact_new f
                 [op_checkPathEmpty changePath,
                  op_writePath changePath (enc_change change),
                  op_writePath REVISION_NUMBER (enc_revNum newRevNum)] of
              Inl e \<Rightarrow> (if e = path_not_empty then (Inr None, f) else (Inl e, f))
            | Inr (f', data) \<Rightarrow> (Inr (Some newRevNum), f')))"

text \<open>
  \<open>_applyDeltaTo\<close>: one attempt, given the snapshots of the base and of the head that
  the attempt has read. The outcome is \<open>Some\<close> result, or \<open>None\<close> for a lost race.
\<close>

definition applyDeltaTo ::
  "'d algebra \<Rightarrow> 'd docfile \<Rightarrow> 'd cache \<Rightarrow> 'd Snapshot \<Rightarrow> 'd \<Rightarrow> string option \<Rightarrow> 'd Snapshot
   \<Rightarrow> 'd Snapshot \<Rightarrow> nat \<Rightarrow> (error + ('d DeltaResult option \<times> 'd cache)) \<times> 'd docfile" where
  "applyDeltaTo A f S base d author current expected now =
     (if revNum base = revNum current then
        (case appendDelta A f (revNum base) d author now of
           (Inl e, f') \<Rightarrow> (Inl e, f')
         | (Inr None, f') \<Rightarrow> (Inr (None, S), f')
         | (Inr (Some r), f') \<Rightarrow> (Inr (Some (DeltaResult r (EMPTY A)), S), f'))
      else
        (case composeRevisions A f (EMPTY A) (revNum base + 1) (revNum current + 1) of
           Inl e \<Rightarrow> (Inl e, f)
         | Inr dServer \<Rightarrow>
             (let dNext = transform A dServer d True in
              if isEmpty A dNext then (Inr (Some (DeltaResult (revNum current) (EMPTY A)), S), f)
              else
                (case appendDelta A f (revNum current) dNext author now of
                   (Inl e, f') \<Rightarrow> (Inl e, f')
                 | (Inr None, f') \<Rightarrow> (Inr (None, S), f')
                 | (Inr (Some vNextNum), f') \<Rightarrow>
                     (case snapshot A f' S (Some vNextNum) of
                        Inl e \<Rightarrow> (Inl e, f')
                      | Inr (rNext, S') \<Rightarrow>
                          (Inr (Some (DeltaResult vNextNum
                                  (diff A (contents expected) (contents rNext))), S'), f'))))))"

text \<open>
  Other writers. An arrival is a change (delta, author, time) that another caller
  appends at the head of the log, through the same conditional append. An
  interference names the arrivals before an attempt reads the head, those between that
  read and the attempt's own append, and the attempt's \<open>Timestamp.now()\<close>.
\<close>

type_synonym 'd arrival = "'d \<times> string option \<times> nat"

fun others :: "'d algebra \<Rightarrow> 'd docfile \<Rightarrow> 'd arrival list \<Rightarrow> 'd docfile" where
  "others A f [] = f"
| "others A f ((d, author, t) # xs) =
     others A
       (case currentRevNums f of
          Inl e \<Rightarrow> f
        | Inr h \<Rightarrow> snd (appendDelta A f h d author t)) xs"

datatype 'd interference =
  Interference (before_read: "'d arrival list") (before_append: "'d arrival list") (timestamp_now: nat)

text \<open>
  The retry loop of \<open>applyDelta\<close>. \<open>env k\<close> is the interference met by attempt \<open>k\<close>
  (\<open>attemptCount\<close> after its increment); \<open>sleeps\<close> records the delays passed to
  \<open>PromDelay.resolve\<close> so far. The result is the outcome, the file afterwards and the
  delays slept; a loop that never ends has the value \<open>None\<close>.
\<close>

partial_function (option) applyDelta_loop ::
  "'d algebra \<Rightarrow> (nat \<Rightarrow> 'd interference) \<Rightarrow> 'd docfile \<Rightarrow> 'd cache \<Rightarrow> 'd Snapshot \<Rightarrow> 'd
   \<Rightarrow> string option \<Rightarrow> 'd Snapshot \<Rightarrow> nat \<Rightarrow> nat \<Rightarrow> nat \<Rightarrow> nat list
   \<Rightarrow> ((error + 'd DeltaResult) \<times> 'd docfile \<times> nat list) option" where
  "applyDelta_loop A env f S base d author expected retryDelayMsec retryTotalMsec attemptCount sleeps =
     (let f1 = others A f (before_read (env (attemptCount + 1))) in
      case snapshot A f1 S None of
        Inl e \<Rightarrow> Some (Inl e, f1, sleeps)
      | Inr (current, S1) \<Rightarrow>
          (case applyDeltaTo A (others A f1 (before_append (env (attemptCount + 1)))) S1
                  base d author current expected (timestamp_now (env (attemptCount + 1))) of
             (Inl e, f3) \<Rightarrow> Some (Inl e, f3, sleeps)
           | (Inr (Some result, S2), f3) \<Rightarrow> Some (Inr result, f3, sleeps)
           | (Inr (None, S2), f3) \<Rightarrow>
               if retryTotalMsec \<ge> MAX_APPEND_TIME_MSEC then Some (Inl (Error ''Too many failed attempts in `applyDelta()`.''), f3, sleeps)
               else applyDelta_loop A env f3 S2 base d author expected
                      (retryDelayMsec * APPEND_RETRY_GROWTH_FACTOR)
                      (retryTotalMsec + retryDelayMsec) (attemptCount + 1)
                      (sleeps @ [retryDelayMsec])))"

definition applyDelta ::
  "'d algebra \<Rightarrow> (nat \<Rightarrow> 'd interference) \<Rightarrow> 'd docfile \<Rightarrow> 'd cache \<Rightarrow> nat \<Rightarrow> 'd \<Rightarrow> string option
   \<Rightarrow> ((error + 'd DeltaResult) \<times> 'd docfile \<times> nat list) option" where
  "applyDelta A env f S baseRevNum d author =
     (case snapshot A f S (Some baseRevNum) of
        Inl e \<Rightarrow> Some (Inl e, f, [])
      | Inr (base, S1) \<Rightarrow>
          if isEmpty A d then Some (Inr (DeltaResult baseRevNum (EMPTY A)), f, [])
          else applyDelta_loop A env f S1 base d author
                 (Snapshot (baseRevNum + 1) (compose A (contents base) d))
                 INITIAL_APPEND_RETRY_MSEC 0 0 [])"

section \<open>The log of a file\<close>

text \<open>
  What a file holds, read off its paths: the head (the stored revision number), the
  change stored for a revision and its delta. \<open>log_ok\<close> says that the revision number
  is stored and that every change up to it is; \<open>composed A f b lo hi\<close> composes the
  deltas of the changes \<open>lo\<close> up to but not including \<open>hi\<close> onto \<open>b\<close>, one after the other.
\<close>

definition head_of :: "'d docfile \<Rightarrow> nat option" where
  "head_of f = (case f REVISION_NUMBER of Some (enc_revNum n) \<Rightarrow> Some n | _ \<Rightarrow> None)"

definition change_at :: "'d docfile \<Rightarrow> nat \<Rightarrow> 'd DocumentChange option" where
  "change_at f i = (case f (forRevNum i) of Some (enc_change c) \<Rightarrow> Some c | _ \<Rightarrow> None)"

definition delta_at :: "'d algebra \<Rightarrow> 'd docfile \<Rightarrow> nat \<Rightarrow> 'd" where
  "delta_at A f i = (case change_at f i of Some c \<Rightarrow> delta c | None \<Rightarrow> EMPTY A)"

fun changes_upto :: "'d docfile \<Rightarrow> nat \<Rightarrow> bool" where
  "changes_upto f 0 = (change_at f 0 \<noteq> None)"
| "changes_upto f (Suc n) = (change_at f (Suc n) \<noteq> None \<and> changes_upto f n)"

definition log_ok :: "'d docfile \<Rightarrow> bool" where
  "log_ok f = (case head_of f of None \<Rightarrow> False | Some h \<Rightarrow> changes_upto f h)"

definition composed :: "'d algebra \<Rightarrow> 'd docfile \<Rightarrow> 'd \<Rightarrow> nat \<Rightarrow> nat \<Rightarrow> 'd" where
  "composed A f b lo hi = foldl (compose A) b (map (delta_at A f) [lo..<hi])"

text \<open>
  The invariant of the cache: the entry under a key is the snapshot of that revision,
  as composed from the log.
\<close>

definition cache_ok :: "'d algebra \<Rightarrow> 'd docfile \<Rightarrow> 'd cache \<Rightarrow> bool" where
  "cache_ok A f S =
     (\<forall>k v. S k = Some v \<longrightarrow> v = Snapshot k (composed A f (EMPTY A) 0 (Suc k)))"

section \<open>Two delta algebras\<close>

text \<open>
  A counter: a delta adds a number, two deltas compose by addition and commute, so
  that transforming a delta against another leaves it as it is.
\<close>

definition counter_algebra :: "int algebra" where
  "counter_algebra =
     \<lparr>compose = (\<lambda>a b. a + b), transform = (\<lambda>a b p. b), diff = (\<lambda>a b. b - a),
      isEmpty = (\<lambda>d. d = 0), isDocument = (\<lambda>d. True), EMPTY = 0\<rparr>"

text \<open>
  Plain text, with the operations of a rich-text delta taken one character at a time:
  insert a character, retain one, delete one. \<open>text_compose\<close> and \<open>text_transform\<close>
  walk the two deltas as the rich-text library does (a delta that is used up retains);
  \<open>chop\<close> drops the trailing retains of the result. A document is a delta of inserts.
\<close>

datatype textop = Ins char | Ret | Del

fun chop :: "textop list \<Rightarrow> textop list" where
  "chop [] = []"
| "chop (x # xs) = (case chop xs of [] \<Rightarrow> (if x = Ret then [] else [x]) | y # ys \<Rightarrow> x # y # ys)"

fun text_compose :: "textop list \<Rightarrow> textop list \<Rightarrow> textop list" where
  "text_compose [] [] = []"
| "text_compose a (Ins x # b) = Ins x # text_compose a b"
| "text_compose (Del # a) b = Del # text_compose a b"
| "text_compose [] (y # b) = y # text_compose [] b"
| "text_compose (x # a) [] = x # text_compose a []"
| "text_compose (x # a) (Ret # b) = x # text_compose a b"
| "text_compose (Ins x # a) (Del # b) = text_compose a b"
| "text_compose (Ret # a) (Del # b) = Del # text_compose a b"

fun text_transform :: "textop list \<Rightarrow> textop list \<Rightarrow> bool \<Rightarrow> textop list" where
  "text_transform [] [] p = []"
| "text_transform (Ins x # a) (Ins y # b) p =
     (if p then Ret # text_transform a (Ins y # b) p
      else Ins y # text_transform (Ins x # a) b p)"
| "text_transform (Ins x # a) b p = Ret # text_transform a b p"
| "text_transform a (Ins y # b) p = Ins y # text_transform a b p"
| "text_transform (Del # a) [] p = text_transform a [] p"
| "text_transform (Del # a) (y # b) p = text_transform a b p"
| "text_transform [] (y # b) p = y # text_transform [] b p"
| "text_transform (Ret # a) [] p = Ret # text_transform a [] p"
| "text_transform (Ret # a) (y # b) p = y # text_transform a b p"

definition text_algebra :: "textop list algebra" where
  "text_algebra =
     \<lparr>compose = (\<lambda>a b. chop (text_compose a b)),
      transform = (\<lambda>a b p. chop (text_transform a b p)),
      diff = (\<lambda>a b. map (\<lambda>x. Del) a @ b),
      isEmpty = (\<lambda>d. d = []),
      isDocument = (\<lambda>d. list_all (\<lambda>x. x \<noteq> Ret \<and> x \<noteq> Del) d),
      EMPTY = []\<rparr>"

section \<open>Example documents\<close>

text \<open>
  A document of the counter algebra with head 2: the empty first change, then 5 and 7.
\<close>

definition counter_doc :: "int docfile" where
  "counter_doc =
     [FORMAT_VERSION \<mapsto> enc_string ''1'',
      REVISION_NUMBER \<mapsto> enc_revNum 2,
      forRevNum 0 \<mapsto> enc_change (DocumentChange 0 None 0 None),
      forRevNum 1 \<mapsto> enc_change (DocumentChange 1 (Some 10) 5 (Some ''ann'')),
      forRevNum 2 \<mapsto> enc_change (DocumentChange 2 (Some 20) 7 (Some ''bob''))]"

text \<open>
  The counter document one revision earlier, with head 1.
\<close>

definition counter_doc1 :: "int docfile" where
  "counter_doc1 =
     [FORMAT_VERSION \<mapsto> enc_string ''1'',
      REVISION_NUMBER \<mapsto> enc_revNum 1,
      forRevNum 0 \<mapsto> enc_change (DocumentChange 0 None 0 None),
      forRevNum 1 \<mapsto> enc_change (DocumentChange 1 (Some 10) 5 (Some ''ann''))]"

text \<open>
  Two documents of the text algebra: the text "ab" at revision 1, and the same log with
  a second change, by another author, that deletes both characters.
\<close>

definition text_doc1 :: "textop list docfile" where
  "text_doc1 =
     [FORMAT_VERSION \<mapsto> enc_string ''1'',
      REVISION_NUMBER \<mapsto> enc_revNum 1,
      forRevNum 0 \<mapsto> enc_change (DocumentChange 0 None [] None),
      forRevNum 1 \<mapsto> enc_change (DocumentChange 1 (Some 1) [Ins CHR ''a'', Ins CHR ''b''] None)]"

definition text_doc2 :: "textop list docfile" where
  "text_doc2 =
     [FORMAT_VERSION \<mapsto> enc_string ''1'',
      REVISION_NUMBER \<mapsto> enc_revNum 2,
      forRevNum 0 \<mapsto> enc_change (DocumentChange 0 None [] None),
      forRevNum 1 \<mapsto> enc_change (DocumentChange 1 (Some 1) [Ins CHR ''a'', Ins CHR ''b''] None),
      forRevNum 2 \<mapsto> enc_change (DocumentChange 2 (Some 5) [Del, Del] (Some ''x''))]"


section \<open>Runs of appends and retries\<close>

text \<open>
  A run of append attempts, each a call of \<open>_appendDelta\<close> (base revision, delta, author,
  time), one after the other on the same file: the outcomes and the file afterwards.
\<close>

type_synonym 'd request = "nat \<times> 'd \<times> string option \<times> nat"

fun run_appends ::
  "'d algebra \<Rightarrow> 'd docfile \<Rightarrow> 'd request list \<Rightarrow> (error + nat option) list \<times> 'd docfile" where
  "run_appends A f [] = ([], f)"
| "run_appends A f ((b, d, author, t) # rs) =
     (case appendDelta A f b d author t of
        (out, f') \<Rightarrow> (case run_appends A f' rs of (outs, f'') \<Rightarrow> (out # outs, f'')))"



text \<open>
  One attempt of the retry loop of \<open>applyDelta\<close>, as attempt number \<open>k\<close>: the head is
  read, and \<open>_applyDeltaTo\<close> is run against it.
\<close>

definition attempt ::
  "'d algebra \<Rightarrow> (nat \<Rightarrow> 'd interference) \<Rightarrow> 'd docfile \<Rightarrow> 'd cache \<Rightarrow> 'd Snapshot \<Rightarrow> 'd
   \<Rightarrow> string option \<Rightarrow> 'd Snapshot \<Rightarrow> nat
   \<Rightarrow> (error + ('d DeltaResult option \<times> 'd cache)) \<times> 'd docfile" where
  "attempt A env f S base d author expected k =
     (let f1 = others A f (before_read (env k)) in
      case snapshot A f1 S None of
        Inl e \<Rightarrow> (Inl e, f1)
      | Inr (current, S1) \<Rightarrow>
          applyDeltaTo A (others A f1 (before_append (env k))) S1 base d author current
            expected (timestamp_now (env k)))"


text \<open>
  A log with nothing stored past its head, and a busy environment: between the head
  read of every attempt and its append, another writer appends a change.
\<close>

definition log_tidy :: "'d docfile \<Rightarrow> nat \<Rightarrow> bool" where
  "log_tidy f h =
     (head_of f = Some h \<and> changes_upto f h \<and> (\<forall>n. h < n \<longrightarrow> f (forRevNum n) = None))"


section \<open>Reading the log: what the transactions return\<close>

lemma filter_read_ops:
  "filter (\<lambda>op. category op = c) (concat (map (\<lambda>p. [op_checkPathExists p, op_readPath p]) ps))
     = (if c = CAT_PREREQUISITE then map op_checkPathExists ps
        else if c = CAT_READ then map op_readPath ps else [])"
  by (induction ps) auto

lemma filter_name_read_ops:
  "n \<noteq> ''checkPathExists'' \<Longrightarrow> n \<noteq> ''readPath'' \<Longrightarrow>
   filter (\<lambda>op. name op = n) (map op_checkPathExists ps @ map op_readPath ps) = []"
  by (induction ps) auto

lemma TransactionSpec_read_ops:
  "TransactionSpec (concat (map (\<lambda>p. [op_checkPathExists p, op_readPath p]) ps))
     = Inr (map op_checkPathExists ps @ map op_readPath ps)"
  by (simp add: TransactionSpec_def sortByCategory_def opsWithCategory_def opsWithName_def
      filter_read_ops filter_name_read_ops array_strict_eq_number_def array_to_number_def)

lemma run_ops_checks:
  "run_ops f d (map op_checkPathExists ps @ rest)
     = (if list_all (\<lambda>p. f p \<noteq> None) ps then run_ops f d rest else Inl path_not_found)"
  by (induction ps) auto

lemma run_ops_reads:
  "run_ops f d (map op_readPath ps)
     = Inr (f, \<lambda>p. if p \<in> set ps \<and> f p \<noteq> None then f p else d p)"
  by (induction ps arbitrary: d) (auto split: option.splits intro!: ext)

lemma transact_new_read_ops:
  "transact_new f (concat (map (\<lambda>p. [op_checkPathExists p, op_readPath p]) ps))
     = (if list_all (\<lambda>p. f p \<noteq> None) ps
        then Inr (f, \<lambda>p. if p \<in> set ps then f p else None)
        else Inl path_not_found)"
  by (auto simp: transact_new_def TransactionSpec_read_ops transact_def run_ops_checks
      run_ops_reads intro!: ext)

lemma currentRevNums_eq:
  "currentRevNums f =
     (case f REVISION_NUMBER of
        None \<Rightarrow> Inl path_not_found
      | Some (enc_revNum n) \<Rightarrow> Inr n
      | Some _ \<Rightarrow> Inl bad_value)"
  using transact_new_read_ops [of f "[REVISION_NUMBER]"]
  by (simp add: currentRevNums_def split: option.splits stored.splits)

lemma currentRevNums_head: "head_of f = Some h \<Longrightarrow> currentRevNums f = Inr h"
  by (auto simp: currentRevNums_eq head_of_def split: option.splits stored.splits)


lemma changes_upto_iff: "changes_upto f n \<longleftrightarrow> (\<forall>i\<le>n. change_at f i \<noteq> None)"
  by (induction n) (auto simp: le_Suc_eq)

lemma check_changes_ok:
  "\<forall>i\<in>set ns. change_at f i \<noteq> None \<Longrightarrow>
   check_changes (map (\<lambda>i. f (forRevNum i)) ns) = Inr (map (\<lambda>i. the (change_at f i)) ns)"
  by (induction ns) (auto simp: change_at_def split: option.splits stored.splits)

lemma readChangeRange_ok:
  assumes "start < endExc" and "endExc - start \<le> MAX_CHANGE_READS_PER_TRANSACTION"
    and "\<forall>i\<in>set [start..<endExc]. change_at f i \<noteq> None"
  shows "readChangeRange f start endExc = Inr (map (\<lambda>i. the (change_at f i)) [start..<endExc])"
proof -
  define P where "P = map forRevNum [start..<endExc]"
  have bound: "list_all (\<lambda>p. f p \<noteq> None) P"
    using assms(3) by (auto simp: P_def list_all_iff change_at_def split: option.splits)
  have "readChangeRange f start endExc
          = check_changes (map (\<lambda>p. if p \<in> set P then f p else None) P)"
    using bound assms(1,2) unfolding P_def [symmetric]
    by (simp add: readChangeRange_def minInc_def transact_new_read_ops Let_def
        flip: P_def)
  also have "map (\<lambda>p. if p \<in> set P then f p else None) P = map f P"
    by (rule map_cong) auto
  also have "map f P = map (\<lambda>i. f (forRevNum i)) [start..<endExc]"
    by (simp add: P_def)
  also have "check_changes (map (\<lambda>i. f (forRevNum i)) [start..<endExc])
          = Inr (map (\<lambda>i. the (change_at f i)) [start..<endExc])"
    using assms(3) by (intro check_changes_ok) auto
  finally show ?thesis .
qed

lemma foldl_changes:
  "\<forall>i\<in>set ns. change_at f i \<noteq> None \<Longrightarrow>
   foldl (\<lambda>r c. compose A r (delta c)) b (map (\<lambda>i. the (change_at f i)) ns)
     = foldl (compose A) b (map (delta_at A f) ns)"
  by (induction ns arbitrary: b) (auto simp: delta_at_def)

lemma composed_split:
  "lo \<le> mid \<Longrightarrow> mid \<le> hi \<Longrightarrow> composed A f (composed A f b lo mid) mid hi = composed A f b lo hi"
proof -
  assume "lo \<le> mid" "mid \<le> hi"
  then have "[lo..<hi] = [lo..<mid] @ [mid..<hi]"
    by (metis le_Suc_ex upt_add_eq_append)
  then show ?thesis by (simp add: composed_def)
qed

lemma composeRevisions_loop_ok:
  "\<forall>j<e. change_at f j \<noteq> None \<Longrightarrow>
   composeRevisions_loop A f b i e = Inr (composed A f b i e)"
proof (induction A f b i e rule: composeRevisions_loop.induct)
  case (1 A f result i endExclusive)
  show ?case
  proof (cases "i < endExclusive")
    case False
    then show ?thesis by (simp add: composed_def composeRevisions_loop.simps [of A f result i])
  next
    case True
    define m where "m = min (i + MAX_CHANGE_READS_PER_TRANSACTION) endExclusive"
    have im: "i < m" "m \<le> endExclusive" "m - i \<le> MAX_CHANGE_READS_PER_TRANSACTION"
      using True by (auto simp: m_def MAX_CHANGE_READS_PER_TRANSACTION_def)
    have rd: "readChangeRange f i m = Inr (map (\<lambda>i. the (change_at f i)) [i..<m])"
      using im "1.prems" by (intro readChangeRange_ok) auto
    have fl: "foldl (\<lambda>r c. compose A r (delta c)) result (map (\<lambda>i. the (change_at f i)) [i..<m])
                = composed A f result i m"
      unfolding composed_def using im "1.prems" by (intro foldl_changes) auto
    have rest: "composeRevisions_loop A f (composed A f result i m)
                  (i + MAX_CHANGE_READS_PER_TRANSACTION) endExclusive
                = Inr (composed A f (composed A f result i m) m endExclusive)"
    proof (cases "i + MAX_CHANGE_READS_PER_TRANSACTION \<le> endExclusive")
      case le: True
      then have "m = i + MAX_CHANGE_READS_PER_TRANSACTION" by (simp add: m_def)
      then show ?thesis
        using "1.IH" [OF True rd [unfolded m_def] "1.prems"] fl by (simp add: m_def)
    next
      case gt: False
      then have "m = endExclusive" by (simp add: m_def)
      moreover have "composeRevisions_loop A f (composed A f result i m)
                  (i + MAX_CHANGE_READS_PER_TRANSACTION) endExclusive = Inr (composed A f result i m)"
        using gt by (subst composeRevisions_loop.simps) simp
      ultimately show ?thesis by (simp add: composed_def)
    qed
    have "composeRevisions_loop A f result i endExclusive
            = composeRevisions_loop A f (composed A f result i m)
                (i + MAX_CHANGE_READS_PER_TRANSACTION) endExclusive"
      using True rd fl by (subst composeRevisions_loop.simps) (simp add: m_def)
    with rest im show ?thesis by (simp add: composed_split)
  qed
qed

lemma composeRevisions_ok:
  assumes "head_of f = Some h" and "changes_upto f h" and "e \<le> h + 1"
  shows "composeRevisions A f b s e = Inr (composed A f b s e)"
proof (cases "s = e")
  case True
  have "readChangeRange f s s = Inr []"
    using assms(1,3) True
    by (simp add: readChangeRange_def minInc_def maxInc_def currentRevNums_head)
  with True show ?thesis by (simp add: composeRevisions_def composed_def)
next
  case False
  have "\<forall>j<e. change_at f j \<noteq> None"
    using assms(2,3) by (auto simp: changes_upto_iff)
  with False show ?thesis by (simp add: composeRevisions_def composeRevisions_loop_ok)
qed

section \<open>Snapshots\<close>

lemma find_base_None: "find_base S r = None \<longleftrightarrow> (\<forall>k\<le>r. S k = None)"
  by (induction r) (auto simp: le_Suc_eq split: option.splits)

lemma find_base_Some: "find_base S r = Some b \<Longrightarrow> \<exists>k\<le>r. S k = Some b"
  by (induction r) (auto simp: le_Suc_eq split: option.splits)

lemma find_base_hit: "S r = Some b \<Longrightarrow> find_base S r = Some b"
  by (cases r) auto

lemma snapshot_any_cache:
  assumes "head_of f = Some h" and "changes_upto f h" and "N \<le> h"
  shows "\<exists>v S'. snapshot A f S (Some N) = Inr (v, S') \<and> revNum v = N"
proof (cases "find_base S N")
  case None
  then show ?thesis
    using assms
    by (simp add: snapshot_def currentRevNums_head maxInc_def composeRevisions_ok [OF assms(1,2)])
next
  case (Some b)
  then show ?thesis
    using assms
    by (simp add: snapshot_def currentRevNums_head maxInc_def composeRevisions_ok [OF assms(1,2)])
qed

lemma snapshot_null: "head_of f = Some h \<Longrightarrow> snapshot A f S None = snapshot A f S (Some h)"
  by (simp add: snapshot_def currentRevNums_head maxInc_def)

lemma snapshot_cache_ok:
  assumes "head_of f = Some h" and "changes_upto f h" and "N \<le> h" and "cache_ok A f S"
  shows "snapshot A f S (Some N)
           = Inr (Snapshot N (composed A f (EMPTY A) 0 (Suc N)),
                  S(N \<mapsto> Snapshot N (composed A f (EMPTY A) 0 (Suc N))))"
proof (cases "find_base S N")
  case None
  then show ?thesis
    using assms
    by (simp add: snapshot_def currentRevNums_head maxInc_def composeRevisions_ok [OF assms(1,2)])
next
  case (Some b)
  then obtain k where k: "k \<le> N" "S k = Some b"
    using find_base_Some by blast
  with assms(4) have b: "b = Snapshot k (composed A f (EMPTY A) 0 (Suc k))"
    by (simp add: cache_ok_def)
  show ?thesis
  proof (cases "k = N")
    case True
    with k b have "S(N \<mapsto> Snapshot N (composed A f (EMPTY A) 0 (Suc N))) = S"
      by (auto intro!: ext)
    with True Some b assms show ?thesis
      by (simp add: snapshot_def currentRevNums_head maxInc_def)
  next
    case False
    with k have "Suc k \<le> Suc N" by simp
    then have "composed A f (composed A f (EMPTY A) 0 (Suc k)) (Suc k) (Suc N)
                 = composed A f (EMPTY A) 0 (Suc N)"
      by (intro composed_split) auto
    with False Some b assms show ?thesis
      by (simp add: snapshot_def currentRevNums_head maxInc_def
          composeRevisions_ok [OF assms(1,2)])
  qed
qed

lemma cache_ok_empty: "cache_ok A f Map.empty"
  by (simp add: cache_ok_def)

lemma cache_ok_upd:
  "cache_ok A f S \<Longrightarrow> cache_ok A f (S(N \<mapsto> Snapshot N (composed A f (EMPTY A) 0 (Suc N))))"
  by (simp add: cache_ok_def)

lemma counter_doc_head: "head_of counter_doc = Some 2"
  by (simp add: head_of_def counter_doc_def)

lemma counter_doc_changes: "changes_upto counter_doc 2"
  by (simp add: numeral_2_eq_2 change_at_def counter_doc_def)

lemma counter_doc_log_ok: "log_ok counter_doc"
  by (simp add: log_ok_def counter_doc_head counter_doc_changes)

lemma counter_doc_composed:
  "composed counter_algebra counter_doc 0 0 (Suc 0) = 0"
  "composed counter_algebra counter_doc 0 0 (Suc 1) = 5"
  "composed counter_algebra counter_doc 0 0 (Suc 2) = 12"
  by (simp_all add: composed_def delta_at_def change_at_def counter_doc_def counter_algebra_def
      upt_rec numeral_2_eq_2)










text \<open>
  C10. The cache is transparent: for a readable log, a revision \<open>N\<close> up to the head and
  any cache that holds under each key the snapshot of that revision (as every cache
  built by \<open>snapshot\<close> does), \<open>snapshot(N)\<close> returns what it returns on the empty cache,
  which composes the changes \<open>0\<close> to \<open>N\<close> from scratch. The cache afterwards is the old
  one with the result under key \<open>N\<close>, whose \<open>revNum\<close> is \<open>N\<close>, and satisfies the
  invariant again.
\<close>

theorem snapshot_cache_transparent:
  assumes "log_ok f" and "head_of f = Some h" and "N \<le> h" and "cache_ok A f S"
  shows "\<exists>v S'. snapshot A f S (Some N) = Inr (v, S')
           \<and> snapshot A f Map.empty (Some N) = Inr (v, [N \<mapsto> v])
           \<and> revNum v = N \<and> S' = S(N \<mapsto> v) \<and> cache_ok A f S'"
proof -
  have ch: "changes_upto f h"
    using assms(1,2) by (simp add: log_ok_def)
  show ?thesis
    using snapshot_cache_ok [OF assms(2) ch assms(3,4)]
      snapshot_cache_ok [OF assms(2) ch assms(3) cache_ok_empty]
      cache_ok_upd [OF assms(4), of N]
    by simp
qed

theorem snapshot_cache_transparent_witness:
  "snapshot counter_algebra counter_doc [1 \<mapsto> Snapshot 1 5] (Some 2)
     = Inr (Snapshot 2 12, [1 \<mapsto> Snapshot 1 5, 2 \<mapsto> Snapshot 2 12])
   \<and> snapshot counter_algebra counter_doc Map.empty (Some 2)
     = Inr (Snapshot 2 12, [2 \<mapsto> Snapshot 2 12])"
proof -
  have E: "EMPTY counter_algebra = 0"
    by (simp add: counter_algebra_def)
  have ok: "cache_ok counter_algebra counter_doc [1 \<mapsto> Snapshot 1 5]"
    using counter_doc_composed(2) by (simp add: cache_ok_def E)
  from snapshot_cache_transparent [OF counter_doc_log_ok counter_doc_head order_refl ok]
  obtain v S' where v: "snapshot counter_algebra counter_doc [1 \<mapsto> Snapshot 1 5] (Some 2) = Inr (v, S')"
    "snapshot counter_algebra counter_doc Map.empty (Some 2) = Inr (v, [2 \<mapsto> v])"
    "S' = [1 \<mapsto> Snapshot 1 5, 2 \<mapsto> v]"
    by auto
  moreover have "v = Snapshot 2 12"
    using v(2) snapshot_cache_ok [OF counter_doc_head counter_doc_changes order_refl cache_ok_empty,
        of counter_algebra]
    using counter_doc_composed(3) by (simp add: E)
  ultimately show ?thesis by simp
qed

text \<open>
  C8, as the code has it. A revision past the head makes \<open>snapshot\<close> fail with the bad
  value error of \<open>RevisionNumber.maxInc\<close>; with no revision given, \<open>snapshot\<close> takes the
  head and, the log being readable, returns its snapshot.
\<close>

theorem snapshot_past_head_bad_value:
  assumes "head_of f = Some h" and "h < r" and "log_ok f"
  shows "snapshot A f S (Some r) = Inl bad_value
         \<and> snapshot A f S None = snapshot A f S (Some h)
         \<and> (\<exists>v S'. snapshot A f S None = Inr (v, S') \<and> revNum v = h)"
proof -
  have ch: "changes_upto f h"
    using assms(1,3) by (simp add: log_ok_def)
  have "snapshot A f S (Some r) = Inl bad_value"
    using assms(1,2) by (simp add: snapshot_def currentRevNums_head maxInc_def)
  then show ?thesis
    using snapshot_null [OF assms(1)] snapshot_any_cache [OF assms(1) ch order_refl]
    by simp
qed

theorem snapshot_past_head_bad_value_witness:
  "snapshot counter_algebra counter_doc Map.empty (Some 5) = Inl bad_value
   \<and> (\<exists>v S'. snapshot counter_algebra counter_doc Map.empty None = Inr (v, S') \<and> revNum v = 2)"
proof -
  have "2 < (5::nat)" by simp
  from snapshot_past_head_bad_value [OF counter_doc_head this counter_doc_log_ok,
      of counter_algebra Map.empty]
  show ?thesis by blast
qed

theorem snapshot_past_head_not_revision_not_available:
  "snapshot counter_algebra counter_doc Map.empty (Some 3) = Inl bad_value
   \<and> snapshot counter_algebra counter_doc Map.empty (Some 3) \<noteq> Inl revision_not_available"
  by (simp add: snapshot_def currentRevNums_head [OF counter_doc_head] maxInc_def)

text \<open>
  C7. An empty delta against a valid base revision: \<open>applyDelta\<close> returns the base
  revision and the empty delta, and the file afterwards is the file before; no delay is
  slept.
\<close>

theorem applyDelta_empty_delta:
  assumes "log_ok f" and "head_of f = Some h" and "baseRevNum \<le> h" and "isEmpty A d"
  shows "applyDelta A env f S baseRevNum d author
           = Some (Inr (DeltaResult baseRevNum (EMPTY A)), f, [])"
proof -
  have ch: "changes_upto f h"
    using assms(1,2) by (simp add: log_ok_def)
  from snapshot_any_cache [OF assms(2) ch assms(3)]
  obtain v S' where "snapshot A f S (Some baseRevNum) = Inr (v, S')"
    by blast
  with assms(4) show ?thesis
    by (simp add: applyDelta_def)
qed

theorem applyDelta_empty_delta_witness:
  "applyDelta counter_algebra (\<lambda>k. Interference [] [] 0) counter_doc Map.empty 1 0 (Some ''ann'')
     = Some (Inr (DeltaResult 1 0), counter_doc, [])"
  using applyDelta_empty_delta [OF counter_doc_log_ok counter_doc_head,
      of 1 counter_algebra 0 "\<lambda>k. Interference [] [] 0" Map.empty "Some ''ann''"]
  by (simp add: counter_algebra_def)

section \<open>Results determine the log\<close>

lemma currentRevNums_Inr: "currentRevNums f = Inr n \<Longrightarrow> head_of f = Some n"
  by (auto simp: currentRevNums_eq head_of_def split: option.splits stored.splits)

lemma check_changes_Inr:
  "check_changes (map (\<lambda>i. f (forRevNum i)) ns) = Inr cs \<Longrightarrow>
   (\<forall>i\<in>set ns. change_at f i \<noteq> None)"
proof (induction ns arbitrary: cs)
  case Nil
  then show ?case by simp
next
  case (Cons n ns)
  then show ?case
    by (cases "f (forRevNum n)")
       (auto simp: change_at_def split: stored.splits sum.splits)
qed

lemma readChangeRange_Inr:
  assumes "start < endExc" and "readChangeRange f start endExc = Inr cs"
  shows "\<forall>i\<in>set [start..<endExc]. change_at f i \<noteq> None"
proof -
  define P where "P = map forRevNum [start..<endExc]"
  have len: "\<not> endExc - start > MAX_CHANGE_READS_PER_TRANSACTION"
    using assms by (auto simp: readChangeRange_def minInc_def split: if_splits)
  have rd: "(case transact_new f (concat (map (\<lambda>p. [op_checkPathExists p, op_readPath p]) P)) of
              Inl e \<Rightarrow> Inl e | Inr (f', data) \<Rightarrow> check_changes (map data P)) = Inr cs"
    using assms len by (simp add: readChangeRange_def minInc_def Let_def flip: P_def)
  then have bound: "list_all (\<lambda>p. f p \<noteq> None) P"
    by (simp add: transact_new_read_ops split: if_splits)
  with rd have "check_changes (map (\<lambda>p. if p \<in> set P then f p else None) P) = Inr cs"
    by (simp add: transact_new_read_ops)
  moreover have "map (\<lambda>p. if p \<in> set P then f p else None) P = map f P"
    by (rule map_cong) auto
  moreover have "map f P = map (\<lambda>i. f (forRevNum i)) [start..<endExc]"
    by (simp add: P_def)
  ultimately have "check_changes (map (\<lambda>i. f (forRevNum i)) [start..<endExc]) = Inr cs"
    by simp
  then show ?thesis by (rule check_changes_Inr)
qed

lemma composeRevisions_loop_Inr:
  "composeRevisions_loop A f b i e = Inr dl \<Longrightarrow> dl = composed A f b i e"
proof (induction A f b i e rule: composeRevisions_loop.induct)
  case (1 A f result i endExclusive)
  show ?case
  proof (cases "i < endExclusive")
    case False
    with "1.prems" show ?thesis
      by (simp add: composed_def composeRevisions_loop.simps [of A f result i])
  next
    case True
    define m where "m = min (i + MAX_CHANGE_READS_PER_TRANSACTION) endExclusive"
    have im: "i < m" "m \<le> endExclusive" "m - i \<le> MAX_CHANGE_READS_PER_TRANSACTION"
      using True by (auto simp: m_def MAX_CHANGE_READS_PER_TRANSACTION_def)
    from "1.prems" True obtain cs where cs: "readChangeRange f i m = Inr cs"
      and rest: "composeRevisions_loop A f (foldl (\<lambda>r c. compose A r (delta c)) result cs)
                   (i + MAX_CHANGE_READS_PER_TRANSACTION) endExclusive = Inr dl"
      by (subst (asm) composeRevisions_loop.simps) (auto simp: m_def split: sum.splits)
    have present: "\<forall>j\<in>set [i..<m]. change_at f j \<noteq> None"
      using readChangeRange_Inr [OF im(1) cs] .
    with im cs have cs_eq: "cs = map (\<lambda>i. the (change_at f i)) [i..<m]"
      by (simp add: readChangeRange_ok)
    have fl: "foldl (\<lambda>r c. compose A r (delta c)) result cs = composed A f result i m"
      unfolding composed_def cs_eq using present by (intro foldl_changes) auto
    have dl: "dl = composed A f (composed A f result i m)
                     (i + MAX_CHANGE_READS_PER_TRANSACTION) endExclusive"
      using "1.IH" [OF True cs [unfolded m_def]] rest fl by simp
    show ?thesis
    proof (cases "i + MAX_CHANGE_READS_PER_TRANSACTION \<le> endExclusive")
      case le: True
      then have "m = i + MAX_CHANGE_READS_PER_TRANSACTION" by (simp add: m_def)
      with dl im show ?thesis by (simp add: composed_split)
    next
      case gt: False
      then have "m = endExclusive" by (simp add: m_def)
      with dl gt show ?thesis by (simp add: composed_def)
    qed
  qed
qed

lemma composeRevisions_Inr:
  assumes "composeRevisions A f b s e = Inr dl"
  shows "dl = composed A f b s e"
proof (cases "s = e")
  case True
  with assms show ?thesis
    by (auto simp: composeRevisions_def composed_def split: sum.splits)
next
  case False
  with assms show ?thesis
    using composeRevisions_loop_Inr [of A f b s e dl] by (simp add: composeRevisions_def)
qed

lemma compose_onto:
  assumes "\<forall>x y z. compose A (compose A x y) z = compose A x (compose A y z)"
    and "\<forall>x. compose A x (EMPTY A) = x"
  shows "compose A x (foldl (compose A) (EMPTY A) ys) = foldl (compose A) x ys"
proof (induction ys rule: rev_induct)
  case Nil
  then show ?case using assms(2) by simp
next
  case (snoc y ys)
  have "compose A x (compose A (foldl (compose A) (EMPTY A) ys) y)
          = compose A (compose A x (foldl (compose A) (EMPTY A) ys)) y"
    using assms(1) by simp
  with snoc show ?case by simp
qed

lemma composed_onto:
  assumes "\<forall>x y z. compose A (compose A x y) z = compose A x (compose A y z)"
    and "\<forall>x. compose A x (EMPTY A) = x" and "lo \<le> mid" and "mid \<le> hi"
  shows "compose A (composed A f b lo mid) (composed A f (EMPTY A) mid hi) = composed A f b lo hi"
  using compose_onto [OF assms(1,2)] composed_split [OF assms(3,4), of A f b]
  by (simp add: composed_def)

text \<open>
  C6. When \<open>deltaAfter(baseRev)\<close> returns \<open>(revNum, delta)\<close>, the iterations before the
  last saw the head at \<open>baseRev\<close>, the last one read the head \<open>revNum\<close>, greater than
  \<open>baseRev\<close>, and \<open>delta\<close> is the empty delta composed with the changes \<open>baseRev + 1\<close>
  to \<open>revNum\<close>. Composition being associative with the empty delta as right identity,
  revision \<open>baseRev\<close> composed with \<open>delta\<close> is revision \<open>revNum\<close>.
\<close>

theorem deltaAfter_result:
  assumes "deltaAfter A fs baseRevNum = Some (Inr (DeltaResult r dl))"
    and "\<forall>x y z. compose A (compose A x y) z = compose A x (compose A y z)"
    and "\<forall>x. compose A x (EMPTY A) = x"
  shows "\<exists>pre f post. fs = pre @ f # post \<and> list_all (\<lambda>g. head_of g = Some baseRevNum) pre
           \<and> head_of f = Some r \<and> baseRevNum < r
           \<and> dl = composed A f (EMPTY A) (baseRevNum + 1) (r + 1)
           \<and> compose A (composed A f (EMPTY A) 0 (baseRevNum + 1)) dl
               = composed A f (EMPTY A) 0 (r + 1)"
  using assms(1)
proof (induction fs)
  case Nil
  then show ?case by simp
next
  case (Cons g gs)
  from Cons.prems obtain n where n: "currentRevNums g = Inr n" "baseRevNum \<le> n"
    by (auto simp: maxInc_def split: sum.splits if_splits)
  then have hd: "head_of g = Some n"
    by (simp add: currentRevNums_Inr)
  show ?case
  proof (cases "baseRevNum < n")
    case True
    with Cons.prems n have r: "r = n"
      and "composeRevisions A g (EMPTY A) (baseRevNum + 1) (n + 1) = Inr dl"
      by (auto simp: maxInc_def split: sum.splits)
    then have dl: "dl = composed A g (EMPTY A) (baseRevNum + 1) (r + 1)"
      using composeRevisions_Inr [of A g "EMPTY A" "baseRevNum + 1" "n + 1" dl] by simp
    have "compose A (composed A g (EMPTY A) 0 (baseRevNum + 1)) dl = composed A g (EMPTY A) 0 (r + 1)"
      unfolding dl using True r by (intro composed_onto assms) auto
    with dl hd r True have
      "g # gs = [] @ g # gs \<and> list_all (\<lambda>g. head_of g = Some baseRevNum) []
         \<and> head_of g = Some r \<and> baseRevNum < r
         \<and> dl = composed A g (EMPTY A) (baseRevNum + 1) (r + 1)
         \<and> compose A (composed A g (EMPTY A) 0 (baseRevNum + 1)) dl
             = composed A g (EMPTY A) 0 (r + 1)"
      by simp
    then show ?thesis by blast
  next
    case False
    with n have eq: "n = baseRevNum" by simp
    with Cons.prems n have "deltaAfter A gs baseRevNum = Some (Inr (DeltaResult r dl))"
      by (simp add: maxInc_def)
    from Cons.IH [OF this] obtain pre f post where
      "gs = pre @ f # post" "list_all (\<lambda>g. head_of g = Some baseRevNum) pre"
      "head_of f = Some r" "baseRevNum < r"
      "dl = composed A f (EMPTY A) (baseRevNum + 1) (r + 1)"
      "compose A (composed A f (EMPTY A) 0 (baseRevNum + 1)) dl = composed A f (EMPTY A) 0 (r + 1)"
      by blast
    with hd eq have
      "g # gs = (g # pre) @ f # post \<and> list_all (\<lambda>g. head_of g = Some baseRevNum) (g # pre)
         \<and> head_of f = Some r \<and> baseRevNum < r
         \<and> dl = composed A f (EMPTY A) (baseRevNum + 1) (r + 1)
         \<and> compose A (composed A f (EMPTY A) 0 (baseRevNum + 1)) dl
             = composed A f (EMPTY A) 0 (r + 1)"
      by simp
    then show ?thesis by blast
  qed
qed

lemma counter_doc1_head: "head_of counter_doc1 = Some 1"
  by (simp add: head_of_def counter_doc1_def)

lemma deltaAfter_counter_doc:
  "deltaAfter counter_algebra [counter_doc1, counter_doc] 1 = Some (Inr (DeltaResult 2 7))"
proof -
  have "composed counter_algebra counter_doc 0 (Suc (Suc 0)) 3 = 7"
    by (simp add: composed_def delta_at_def change_at_def counter_doc_def counter_algebra_def
        upt_rec)
  then have "composeRevisions counter_algebra counter_doc 0 (Suc (Suc 0)) 3 = Inr 7"
    using composeRevisions_ok [OF counter_doc_head counter_doc_changes,
        of 3 counter_algebra 0 "Suc (Suc 0)"]
    by simp
  then show ?thesis
    by (simp add: currentRevNums_head [OF counter_doc_head]
        currentRevNums_head [OF counter_doc1_head] maxInc_def counter_algebra_def)
qed

theorem deltaAfter_result_witness:
  "deltaAfter counter_algebra [counter_doc1, counter_doc] 1 = Some (Inr (DeltaResult 2 7))
   \<and> (\<exists>pre f post. [counter_doc1, counter_doc] = pre @ f # post
        \<and> list_all (\<lambda>g. head_of g = Some 1) pre \<and> head_of f = Some 2 \<and> 1 < (2::nat)
        \<and> 7 = composed counter_algebra f (EMPTY counter_algebra) (1 + 1) (2 + 1)
        \<and> compose counter_algebra (composed counter_algebra f (EMPTY counter_algebra) 0 (1 + 1)) 7
            = composed counter_algebra f (EMPTY counter_algebra) 0 (2 + 1))"
proof -
  have assoc: "\<forall>x y z. compose counter_algebra (compose counter_algebra x y) z
                 = compose counter_algebra x (compose counter_algebra y z)"
    by (simp add: counter_algebra_def)
  have ident: "\<forall>x. compose counter_algebra x (EMPTY counter_algebra) = x"
    by (simp add: counter_algebra_def)
  show ?thesis
    by (rule conjI [OF deltaAfter_counter_doc
          deltaAfter_result [OF deltaAfter_counter_doc assoc ident]])
qed

section \<open>Appending\<close>

lemma TransactionSpec_append:
  "TransactionSpec [op_checkPathEmpty p, op_writePath p c, op_writePath q r]
     = Inr [op_checkPathEmpty p, op_writePath p c, op_writePath q r]"
  by (simp add: TransactionSpec_def sortByCategory_def opsWithCategory_def opsWithName_def
      array_strict_eq_number_def array_to_number_def)

lemma transact_new_append:
  "transact_new f [op_checkPathEmpty p, op_writePath p c, op_writePath q r]
     = (if f p = None then Inr (f(p \<mapsto> c, q \<mapsto> r), Map.empty) else Inl path_not_empty)"
  by (simp add: transact_new_def TransactionSpec_append transact_def)

lemma appendDelta_eq:
  "\<not> isEmpty A d \<Longrightarrow>
   appendDelta A f b d author t
     = (if f (forRevNum (b + 1)) = None
        then (Inr (Some (b + 1)),
              f(forRevNum (b + 1) \<mapsto> enc_change (DocumentChange (b + 1) (Some t) d author),
                REVISION_NUMBER \<mapsto> enc_revNum (b + 1)))
        else (Inr None, f))"
  by (simp add: appendDelta_def transact_new_append Let_def)

lemma appendDelta_bound:
  "f p \<noteq> None \<Longrightarrow> snd (appendDelta A f b d author t) p \<noteq> None"
  by (cases "isEmpty A d") (auto simp: appendDelta_eq, simp add: appendDelta_def)

lemma appendDelta_commit:
  assumes "fst (appendDelta A f b d author t) = Inr (Some N)"
  shows "f (forRevNum N) = None \<and> snd (appendDelta A f b d author t) (forRevNum N) \<noteq> None"
proof (cases "isEmpty A d")
  case True
  with assms show ?thesis by (simp add: appendDelta_def)
next
  case False
  with assms show ?thesis by (auto simp: appendDelta_eq split: if_splits)
qed

lemma fst_run_appends_Cons:
  "fst (run_appends A f ((b, d, author, t) # rs))
     = fst (appendDelta A f b d author t) # fst (run_appends A (snd (appendDelta A f b d author t)) rs)"
  by (simp split: prod.splits)

lemma run_appends_bound:
  "f (forRevNum N) \<noteq> None \<Longrightarrow>
   filter (\<lambda>out. out = Inr (Some N)) (fst (run_appends A f reqs)) = []"
proof (induction reqs arbitrary: f)
  case Nil
  then show ?case by simp
next
  case (Cons r rs)
  obtain b d author t where r: "r = (b, d, author, t)"
    by (cases r) auto
  have "fst (appendDelta A f b d author t) \<noteq> Inr (Some N)"
    using appendDelta_commit [of A f b d author t N] Cons.prems by auto
  moreover have "snd (appendDelta A f b d author t) (forRevNum N) \<noteq> None"
    using Cons.prems by (rule appendDelta_bound)
  ultimately show ?case
    using Cons.IH [of "snd (appendDelta A f b d author t)"]
    by (simp add: r fst_run_appends_Cons del: run_appends.simps)
qed

lemma run_appends_once:
  "length (filter (\<lambda>out. out = Inr (Some N)) (fst (run_appends A f reqs))) \<le> 1"
proof (induction reqs arbitrary: f)
  case Nil
  then show ?case by simp
next
  case (Cons r rs)
  obtain b d author t where r: "r = (b, d, author, t)"
    by (cases r) auto
  show ?case
  proof (cases "fst (appendDelta A f b d author t) = Inr (Some N)")
    case True
    then have "snd (appendDelta A f b d author t) (forRevNum N) \<noteq> None"
      using appendDelta_commit [of A f b d author t N] by simp
    from run_appends_bound [of "snd (appendDelta A f b d author t)" N A rs] this True
    show ?thesis
      by (simp add: r fst_run_appends_Cons del: run_appends.simps)
  next
    case False
    with Cons.IH [of "snd (appendDelta A f b d author t)"] show ?thesis
      by (simp add: r fst_run_appends_Cons del: run_appends.simps)
  qed
qed

lemma appendDelta_keeps:
  assumes "f (forRevNum N) = Some v"
  shows "snd (appendDelta A f b d author t) (forRevNum N) = Some v"
proof (cases "isEmpty A d")
  case True
  with assms show ?thesis by (simp add: appendDelta_def)
next
  case False
  with assms show ?thesis by (auto simp: appendDelta_eq)
qed

lemma run_appends_keeps:
  "f (forRevNum N) = Some v \<Longrightarrow> snd (run_appends A f reqs) (forRevNum N) = Some v"
proof (induction reqs arbitrary: f)
  case Nil
  then show ?case by simp
next
  case (Cons r rs)
  obtain b d author t where r: "r = (b, d, author, t)"
    by (cases r) auto
  have "snd (appendDelta A f b d author t) (forRevNum N) = Some v"
    using Cons.prems appendDelta_keeps [of f N v A b d author t] by simp
  from Cons.IH [of "snd (appendDelta A f b d author t)"] this show ?case
    by (auto simp: r split: prod.splits)
qed

text \<open>
  C4. In any run of append attempts on a file, at most one attempt commits revision
  \<open>N\<close>, and a change that is stored stays as it is. The transaction of an attempt keeps its three operations in order: the check
  that the change path is empty, the write of the change, the write of the revision
  number. Of two attempts at the revision after \<open>b\<close>, whose change path is empty, the
  first commits its change and the revision number, and the second meets
  \<open>path_not_empty\<close> in its transaction, which \<open>_appendDelta\<close> reports as a lost race,
  leaving the file as the first attempt wrote it.
\<close>

theorem append_commits_once:
  assumes "\<not> isEmpty A d" and "\<not> isEmpty A d'" and "f (forRevNum (b + 1)) = None"
    and "f' = f(forRevNum (b + 1) \<mapsto> enc_change (DocumentChange (b + 1) (Some t) d author),
                REVISION_NUMBER \<mapsto> enc_revNum (b + 1))"
  shows "length (filter (\<lambda>out. out = Inr (Some N)) (fst (run_appends A g reqs))) \<le> 1
       \<and> (g (forRevNum N) = Some v \<longrightarrow> snd (run_appends A g reqs) (forRevNum N) = Some v)
       \<and> TransactionSpec [op_checkPathEmpty (forRevNum (b + 1)),
                           op_writePath (forRevNum (b + 1)) (enc_change c),
                           op_writePath REVISION_NUMBER (enc_revNum (b + 1))]
           = Inr [op_checkPathEmpty (forRevNum (b + 1)),
                  op_writePath (forRevNum (b + 1)) (enc_change c),
                  op_writePath REVISION_NUMBER (enc_revNum (b + 1))]
       \<and> appendDelta A f b d author t = (Inr (Some (b + 1)), f')
       \<and> transact_new f' [op_checkPathEmpty (forRevNum (b + 1)),
                           op_writePath (forRevNum (b + 1))
                             (enc_change (DocumentChange (b + 1) (Some t') d' author')),
                           op_writePath REVISION_NUMBER (enc_revNum (b + 1))]
           = Inl path_not_empty
       \<and> appendDelta A f' b d' author' t' = (Inr None, f')
       \<and> run_appends A f [(b, d, author, t), (b, d', author', t')]
           = ([Inr (Some (b + 1)), Inr None], f')"
  using assms run_appends_once [of N A g reqs] run_appends_keeps [of g N v A reqs]
  by (simp add: TransactionSpec_append transact_new_append appendDelta_eq)

lemma appendDelta_counter_doc1:
  "appendDelta counter_algebra counter_doc1 1 7 (Some ''bob'') 20 = (Inr (Some 2), counter_doc)"
  by (auto simp: appendDelta_eq counter_algebra_def counter_doc1_def counter_doc_def intro!: ext)

theorem append_commits_once_witness:
  "appendDelta counter_algebra counter_doc1 1 7 (Some ''bob'') 20 = (Inr (Some (1 + 1)), counter_doc)
   \<and> appendDelta counter_algebra counter_doc 1 9 (Some ''cy'') 21 = (Inr None, counter_doc)
   \<and> run_appends counter_algebra counter_doc1 [(1, 7, Some ''bob'', 20), (1, 9, Some ''cy'', 21)]
       = ([Inr (Some (1 + 1)), Inr None], counter_doc)"
proof -
  have d1: "\<not> isEmpty counter_algebra 7" and d2: "\<not> isEmpty counter_algebra 9"
    by (simp_all add: counter_algebra_def)
  have free: "counter_doc1 (forRevNum (1 + 1)) = None"
    by (simp add: counter_doc1_def)
  have f1: "counter_doc
              = counter_doc1(forRevNum (1 + 1) \<mapsto> enc_change (DocumentChange (1 + 1) (Some 20) 7 (Some ''bob'')),
                  REVISION_NUMBER \<mapsto> enc_revNum (1 + 1))"
    by (auto simp: counter_doc1_def counter_doc_def intro!: ext)
  from append_commits_once [OF d1 d2 free f1,
      where N = 2 and g = counter_doc1 and reqs = "[]" and c = "DocumentChange 0 None 0 None"
        and t' = 21 and author' = "Some ''cy''" and v = "enc_revNum 0"]
  show ?thesis by blast
qed

section \<open>One attempt against a newer head\<close>

lemma head_of_append: "head_of (f(p \<mapsto> v, REVISION_NUMBER \<mapsto> enc_revNum n)) = Some n"
  by (simp add: head_of_def)

lemma change_at_append:
  "change_at (f(forRevNum n \<mapsto> enc_change c, REVISION_NUMBER \<mapsto> v)) i
     = (if i = n then Some c else change_at f i)"
  by (simp add: change_at_def)

lemma changes_upto_append:
  "changes_upto f h \<Longrightarrow>
   changes_upto (f(forRevNum (h + 1) \<mapsto> enc_change c, REVISION_NUMBER \<mapsto> v)) (h + 1)"
  by (simp add: changes_upto_iff change_at_append)

lemma applyDeltaTo_rebase:
  assumes "head_of f = Some h" and "changes_upto f h"
    and "revNum base < revNum current" and "revNum current \<le> h"
    and "dNext = transform A (composed A f (EMPTY A) (revNum base + 1) (revNum current + 1)) d True"
  shows "applyDeltaTo A f S base d author current expected now
           = (if isEmpty A dNext then (Inr (Some (DeltaResult (revNum current) (EMPTY A)), S), f)
              else
                (case appendDelta A f (revNum current) dNext author now of
                   (Inl e, f') \<Rightarrow> (Inl e, f')
                 | (Inr None, f') \<Rightarrow> (Inr (None, S), f')
                 | (Inr (Some vNextNum), f') \<Rightarrow>
                     (case snapshot A f' S (Some vNextNum) of
                        Inl e \<Rightarrow> (Inl e, f')
                      | Inr (rNext, S') \<Rightarrow>
                          (Inr (Some (DeltaResult vNextNum
                                  (diff A (contents expected) (contents rNext))), S'), f'))))"
proof -
  have "composeRevisions A f (EMPTY A) (revNum base + 1) (revNum current + 1)
          = Inr (composed A f (EMPTY A) (revNum base + 1) (revNum current + 1))"
    using assms(4) by (intro composeRevisions_ok [OF assms(1,2)]) simp
  with assms(3,5) show ?thesis
    by (simp add: applyDeltaTo_def Let_def)
qed

text \<open>
  C3. An attempt whose base revision is older than the head it has read transforms the
  client's delta against the composition of the changes after the base up to that
  head, the server's side taken as applied first. If the transformed delta is empty,
  the attempt returns the head's revision number and the empty delta, and the file
  stays as it was. Otherwise the transformed delta is what the attempt appends, as
  the change after the head it has read: when that path is bound the race is lost and
  nothing is written, and when it is empty the file gains exactly that change and the
  new revision number.
\<close>

theorem applyDeltaTo_rebases:
  assumes "log_ok f" and "head_of f = Some h"
    and "revNum base < revNum current" and "revNum current \<le> h"
    and "dNext = transform A (composed A f (EMPTY A) (revNum base + 1) (revNum current + 1)) d True"
  shows "(isEmpty A dNext \<longrightarrow>
            applyDeltaTo A f S base d author current expected now
              = (Inr (Some (DeltaResult (revNum current) (EMPTY A)), S), f))
       \<and> (\<not> isEmpty A dNext \<and> f (forRevNum (revNum current + 1)) \<noteq> None \<longrightarrow>
            applyDeltaTo A f S base d author current expected now = (Inr (None, S), f))
       \<and> (\<not> isEmpty A dNext \<and> f (forRevNum (revNum current + 1)) = None \<longrightarrow>
            (\<exists>corr S'. applyDeltaTo A f S base d author current expected now
               = (Inr (Some (DeltaResult (revNum current + 1) corr), S'),
                  f(forRevNum (revNum current + 1)
                      \<mapsto> enc_change (DocumentChange (revNum current + 1) (Some now) dNext author),
                    REVISION_NUMBER \<mapsto> enc_revNum (revNum current + 1)))))"
proof -
  have ch: "changes_upto f h"
    using assms(1,2) by (simp add: log_ok_def)
  note step = applyDeltaTo_rebase [OF assms(2) ch assms(3,4,5),
      where S = S and author = author and expected = expected and now = now]
  have empty: "isEmpty A dNext \<longrightarrow>
      applyDeltaTo A f S base d author current expected now
        = (Inr (Some (DeltaResult (revNum current) (EMPTY A)), S), f)"
    using step by simp
  have lost: "\<not> isEmpty A dNext \<and> f (forRevNum (revNum current + 1)) \<noteq> None \<longrightarrow>
      applyDeltaTo A f S base d author current expected now = (Inr (None, S), f)"
    using step by (auto simp: appendDelta_eq)
  have won: "\<exists>corr S'. applyDeltaTo A f S base d author current expected now
               = (Inr (Some (DeltaResult (revNum current + 1) corr), S'),
                  f(forRevNum (revNum current + 1)
                      \<mapsto> enc_change (DocumentChange (revNum current + 1) (Some now) dNext author),
                    REVISION_NUMBER \<mapsto> enc_revNum (revNum current + 1)))"
    if ne: "\<not> isEmpty A dNext" and free: "f (forRevNum (revNum current + 1)) = None"
  proof -
    define f' where "f' = f(forRevNum (revNum current + 1)
                      \<mapsto> enc_change (DocumentChange (revNum current + 1) (Some now) dNext author),
                    REVISION_NUMBER \<mapsto> enc_revNum (revNum current + 1))"
    have "change_at f (revNum current + 1) = None"
      using free by (simp add: change_at_def)
    have cur: "revNum current = h"
    proof (rule ccontr)
      assume "revNum current \<noteq> h"
      with assms(4) have "revNum current + 1 \<le> h" by simp
      with ch have "change_at f (revNum current + 1) \<noteq> None"
        unfolding changes_upto_iff by blast
      with \<open>change_at f (revNum current + 1) = None\<close> show False by simp
    qed
    have hd: "head_of f' = Some (revNum current + 1)"
      unfolding f'_def by (rule head_of_append)
    have ch': "changes_upto f' (revNum current + 1)"
      unfolding f'_def cur using ch by (rule changes_upto_append)
    from snapshot_any_cache [OF hd ch' order_refl, of A S]
    obtain v S' where sn: "snapshot A f' S (Some (revNum current + 1)) = Inr (v, S')"
      by blast
    have ap: "appendDelta A f (revNum current) dNext author now
                = (Inr (Some (revNum current + 1)), f')"
      using ne free by (simp add: appendDelta_eq f'_def)
    have "applyDeltaTo A f S base d author current expected now
            = (Inr (Some (DeltaResult (revNum current + 1)
                     (diff A (contents expected) (contents v))), S'), f')"
      using step ne ap sn by simp
    then show ?thesis
      unfolding f'_def by blast
  qed
  from empty lost won show ?thesis by blast
qed

lemma text_doc1_created:
  "create text_algebra ''1'' (Some [Ins CHR ''a'', Ins CHR ''b'']) 1 Map.empty
     = Inr (text_doc1, Map.empty)"
  by (auto simp: create_def firstChange_def transact_new_def TransactionSpec_def
      sortByCategory_def opsWithCategory_def opsWithName_def array_strict_eq_number_def
      array_to_number_def transact_def text_doc1_def text_algebra_def intro!: ext)

lemma text_doc1_head: "head_of text_doc1 = Some 1"
  by (simp add: head_of_def text_doc1_def)

lemma text_doc1_changes: "changes_upto text_doc1 1"
  by (simp add: change_at_def text_doc1_def)

lemma text_doc2_head: "head_of text_doc2 = Some 2"
  by (simp add: head_of_def text_doc2_def)

lemma text_doc2_changes: "changes_upto text_doc2 2"
  by (simp add: numeral_2_eq_2 change_at_def text_doc2_def)

lemma text_doc2_log_ok: "log_ok text_doc2"
  by (simp add: log_ok_def text_doc2_head text_doc2_changes)

lemma text_doc2_appended:
  "appendDelta text_algebra text_doc1 1 [Del, Del] (Some ''x'') 5 = (Inr (Some 2), text_doc2)"
  by (auto simp: appendDelta_eq text_algebra_def text_doc1_def text_doc2_def intro!: ext)

lemma text_doc1_composed:
  "composed text_algebra text_doc1 [] 0 (Suc (Suc 0)) = [Ins CHR ''a'', Ins CHR ''b'']"
  by (simp add: composed_def delta_at_def change_at_def text_doc1_def text_algebra_def upt_rec)

lemma text_doc2_composed:
  "composed text_algebra text_doc2 [] 0 (Suc (Suc 0)) = [Ins CHR ''a'', Ins CHR ''b'']"
  "composed text_algebra text_doc2 [] 0 3 = []"
  "composed text_algebra text_doc2 [] (Suc (Suc 0)) 3 = [Del, Del]"
  by (simp_all add: composed_def delta_at_def change_at_def text_doc2_def text_algebra_def upt_rec)

theorem applyDeltaTo_rebases_witness:
  "applyDeltaTo text_algebra text_doc2 Map.empty (Snapshot 1 [Ins CHR ''a'', Ins CHR ''b''])
     [Del] (Some ''y'') (Snapshot 2 []) (Snapshot 2 [Ins CHR ''b'']) 7
     = (Inr (Some (DeltaResult 2 []), Map.empty), text_doc2)"
proof -
  have lt: "revNum (Snapshot 1 [Ins CHR ''a'', Ins CHR ''b'']) < revNum (Snapshot 2 ([] :: textop list))"
    and le: "revNum (Snapshot 2 ([] :: textop list)) \<le> 2"
    by simp_all
  have dNext: "[] = transform text_algebra
                 (composed text_algebra text_doc2 (EMPTY text_algebra)
                    (revNum (Snapshot 1 [Ins CHR ''a'', Ins CHR ''b'']) + 1)
                    (revNum (Snapshot 2 ([] :: textop list)) + 1)) [Del] True"
    using text_doc2_composed(3) by (simp add: text_algebra_def)
  from applyDeltaTo_rebases [OF text_doc2_log_ok text_doc2_head lt le dNext,
      where S = Map.empty and author = "Some ''y''"
        and expected = "Snapshot 2 [Ins CHR ''b'']" and now = 7]
  show ?thesis by (simp add: text_algebra_def)
qed

section \<open>The correction returned by applyDelta\<close>

lemma applyDelta_nonempty:
  assumes "snapshot A f S (Some baseRevNum) = Inr (base, S1)" and "\<not> isEmpty A d"
  shows "applyDelta A env f S baseRevNum d author
           = applyDelta_loop A env f S1 base d author
               (Snapshot (baseRevNum + 1) (compose A (contents base) d))
               INITIAL_APPEND_RETRY_MSEC 0 0 []"
  using assms by (simp add: applyDelta_def)

lemma applyDelta_loop_returns:
  assumes "others A f (before_read (env (k + 1))) = f1"
    and "snapshot A f1 S None = Inr (current, S1)"
    and "applyDeltaTo A (others A f1 (before_append (env (k + 1)))) S1 base d author current
           expected (timestamp_now (env (k + 1))) = (Inr (Some result, S2), f3)"
  shows "applyDelta_loop A env f S base d author expected retryDelayMsec retryTotalMsec k sleeps
           = Some (Inr result, f3, sleeps)"
  using assms by (subst applyDelta_loop.simps) simp


text \<open>
  C1. The claim: the delta returned by \<open>applyDelta\<close> takes the client's expected result
  (the base revision composed with its delta) to the snapshot of the returned revision.
  The code, on the text "ab" at revision 1: a client deletes the first character against
  revision 1 while another writer's change 2, which deletes both characters, arrives
  before the attempt reads the head. The client's delta transformed against change 2 is
  empty, \<open>applyDelta\<close> returns revision 2 with the empty correction and appends nothing.
  The expected result composed with that correction is the text "b"; revision 2 is the
  empty text.
\<close>

theorem applyDelta_empty_rebase_correction:
  "applyDelta text_algebra (\<lambda>k. Interference [([Del, Del], Some ''x'', 5)] [] 7)
       text_doc1 Map.empty 1 [Del] (Some ''y'')
     = Some (Inr (DeltaResult 2 []), text_doc2, [])
   \<and> snapshot text_algebra text_doc2 Map.empty (Some 1)
     = Inr (Snapshot 1 [Ins CHR ''a'', Ins CHR ''b''], [1 \<mapsto> Snapshot 1 [Ins CHR ''a'', Ins CHR ''b'']])
   \<and> snapshot text_algebra text_doc2 Map.empty (Some 2) = Inr (Snapshot 2 [], [2 \<mapsto> Snapshot 2 []])
   \<and> compose text_algebra (compose text_algebra [Ins CHR ''a'', Ins CHR ''b''] [Del]) []
     = [Ins CHR ''b'']"
proof -
  define ab where "ab = [Ins CHR ''a'', Ins CHR ''b'']"
  define S1 :: "textop list cache" where "S1 = [1 \<mapsto> Snapshot 1 ab]"
  define env :: "nat \<Rightarrow> textop list interference"
    where "env = (\<lambda>k. Interference [([Del, Del], Some ''x'', 5)] [] 7)"
  have E: "EMPTY text_algebra = []"
    by (simp add: text_algebra_def)
  have base: "snapshot text_algebra text_doc1 Map.empty (Some 1) = Inr (Snapshot 1 ab, S1)"
    using snapshot_cache_ok [OF text_doc1_head text_doc1_changes order_refl cache_ok_empty,
        of text_algebra] text_doc1_composed
    by (simp add: E ab_def S1_def)
  have snap1: "snapshot text_algebra text_doc2 Map.empty (Some 1) = Inr (Snapshot 1 ab, S1)"
    using snapshot_cache_ok [OF text_doc2_head text_doc2_changes _ cache_ok_empty,
        of 1 text_algebra] text_doc2_composed(1)
    by (simp add: E ab_def S1_def)
  have snap2: "snapshot text_algebra text_doc2 Map.empty (Some 2)
                 = Inr (Snapshot 2 [], [2 \<mapsto> Snapshot 2 []])"
    using snapshot_cache_ok [OF text_doc2_head text_doc2_changes order_refl cache_ok_empty,
        of text_algebra] text_doc2_composed(2)
    by (simp add: E)
  have ok: "cache_ok text_algebra text_doc2 S1"
    using text_doc2_composed(1) by (simp add: cache_ok_def S1_def E ab_def)
  have arrival: "others text_algebra text_doc1 [([Del, Del], Some ''x'', 5)] = text_doc2"
    using text_doc2_appended by (simp add: currentRevNums_head [OF text_doc1_head])
  have current: "snapshot text_algebra text_doc2 S1 None
                   = Inr (Snapshot 2 [], S1(2 \<mapsto> Snapshot 2 []))"
    using snapshot_cache_ok [OF text_doc2_head text_doc2_changes order_refl ok]
      text_doc2_composed(2)
    by (simp add: snapshot_null [OF text_doc2_head] E)
  have dNext: "[] = transform text_algebra
                 (composed text_algebra text_doc2 (EMPTY text_algebra)
                    (revNum (Snapshot 1 ab) + 1) (revNum (Snapshot 2 ([] :: textop list)) + 1))
                 [Del] True"
    using text_doc2_composed(3) by (simp add: text_algebra_def)
  have attempt: "applyDeltaTo text_algebra text_doc2 (S1(2 \<mapsto> Snapshot 2 [])) (Snapshot 1 ab) [Del]
                   (Some ''y'') (Snapshot 2 []) (Snapshot (1 + 1) (compose text_algebra ab [Del])) 7
                 = (Inr (Some (DeltaResult 2 []), S1(2 \<mapsto> Snapshot 2 [])), text_doc2)"
    using applyDeltaTo_rebase [OF text_doc2_head text_doc2_changes _ _ dNext]
    by (simp add: text_algebra_def)
  have loop: "applyDelta_loop text_algebra env text_doc1 S1 (Snapshot 1 ab) [Del] (Some ''y'')
                (Snapshot (1 + 1) (compose text_algebra ab [Del]))
                INITIAL_APPEND_RETRY_MSEC 0 0 []
              = Some (Inr (DeltaResult 2 []), text_doc2, [])"
  proof (rule applyDelta_loop_returns)
    show "others text_algebra text_doc1 (before_read (env (0 + 1))) = text_doc2"
      using arrival by (simp add: env_def)
    show "snapshot text_algebra text_doc2 S1 None = Inr (Snapshot 2 [], S1(2 \<mapsto> Snapshot 2 []))"
      by (rule current)
    show "applyDeltaTo text_algebra (others text_algebra text_doc2 (before_append (env (0 + 1))))
            (S1(2 \<mapsto> Snapshot 2 [])) (Snapshot 1 ab) [Del] (Some ''y'') (Snapshot 2 [])
            (Snapshot (1 + 1) (compose text_algebra ab [Del])) (timestamp_now (env (0 + 1)))
          = (Inr (Some (DeltaResult 2 []), S1(2 \<mapsto> Snapshot 2 [])), text_doc2)"
      using attempt by (simp add: env_def)
  qed
  have "applyDelta text_algebra env text_doc1 Map.empty 1 [Del] (Some ''y'')
          = Some (Inr (DeltaResult 2 []), text_doc2, [])"
  proof -
    have "\<not> isEmpty text_algebra [Del]"
      by (simp add: text_algebra_def)
    from applyDelta_nonempty [OF base this, of env "Some ''y''"] loop show ?thesis
      by simp
  qed
  moreover have "compose text_algebra (compose text_algebra ab [Del]) [] = [Ins CHR ''b'']"
    by (simp add: text_algebra_def ab_def)
  ultimately show ?thesis
    using snap1 snap2 by (simp add: env_def ab_def S1_def)
qed

section \<open>The retry loop\<close>








lemma applyDeltaTo_fast:
  assumes "revNum base = revNum current"
    and "appendDelta A f (revNum base) d author now = (out, f')"
  shows "applyDeltaTo A f S base d author current expected now
           = (case out of
                Inl e \<Rightarrow> (Inl e, f')
              | Inr None \<Rightarrow> (Inr (None, S), f')
              | Inr (Some r) \<Rightarrow> (Inr (Some (DeltaResult r (EMPTY A)), S), f'))"
  using assms by (simp add: applyDeltaTo_def split: sum.splits option.splits)

























section \<open>Where the correction is right\<close>

lemma composed_append:
  assumes "hi \<le> h + 1"
  shows "composed A (f(forRevNum (h + 1) \<mapsto> enc_change c, REVISION_NUMBER \<mapsto> v)) b lo hi
           = composed A f b lo hi"
proof -
  have "map (delta_at A (f(forRevNum (h + 1) \<mapsto> enc_change c, REVISION_NUMBER \<mapsto> v))) [lo..<hi]
          = map (delta_at A f) [lo..<hi]"
    using assms by (intro map_cong) (auto simp: delta_at_def change_at_append)
  then show ?thesis unfolding composed_def by (rule arg_cong)
qed

lemma composed_appended:
  assumes "f' = f(forRevNum (h + 1) \<mapsto> enc_change (DocumentChange (h + 1) t d author),
                  REVISION_NUMBER \<mapsto> v)"
  shows "composed A f' b 0 (h + 2) = compose A (composed A f b 0 (h + 1)) d"
proof -
  have "composed A f' b 0 (h + 2) = compose A (composed A f' b 0 (h + 1)) (delta_at A f' (h + 1))"
    by (simp add: composed_def)
  moreover have "delta_at A f' (h + 1) = d"
    by (simp add: assms delta_at_def change_at_append)
  moreover have "composed A f' b 0 (h + 1) = composed A f b 0 (h + 1)"
    unfolding assms by (rule composed_append) simp
  ultimately show ?thesis by simp
qed

text \<open>
  Where the correction is right. An attempt that wins its append, on a log with nothing
  stored past the head: on the fast path the correction is empty and the new revision
  is the expected result; on the rebase path with a transformed delta that is not empty
  the correction is the difference from the expected result to the new revision, and
  composes with the expected result to the new revision when both are documents.
\<close>

lemma applyDeltaTo_correction:
  assumes "log_tidy f h" and "cache_ok A f S" and "\<forall>k v. S k = Some v \<longrightarrow> k \<le> h"
    and "base = Snapshot b (composed A f (EMPTY A) 0 (b + 1))" and "b \<le> h"
    and "current = Snapshot h (composed A f (EMPTY A) 0 (h + 1))"
    and "expected = Snapshot (b + 1) (compose A (contents base) d)"
    and "\<not> isEmpty A d"
    and "\<not> isEmpty A (transform A (composed A f (EMPTY A) (b + 1) (h + 1)) d True)"
    and "\<forall>x. compose A x (EMPTY A) = x"
    and "\<forall>x y. isDocument A x \<and> isDocument A y \<longrightarrow> compose A x (diff A x y) = y"
    and "isDocument A (contents expected)"
    and "isDocument A (compose A (composed A f (EMPTY A) 0 (h + 1))
           (transform A (composed A f (EMPTY A) (b + 1) (h + 1)) d True))"
  shows "\<exists>corr S' f'. applyDeltaTo A f S base d author current expected now
            = (Inr (Some (DeltaResult (h + 1) corr), S'), f')
          \<and> head_of f' = Some (h + 1)
          \<and> compose A (contents expected) corr = composed A f' (EMPTY A) 0 (h + 2)"
proof -
  have hd: "head_of f = Some h" and ch: "changes_upto f h" and free: "f (forRevNum (h + 1)) = None"
    using assms(1) by (simp_all add: log_tidy_def)
  show ?thesis
  proof (cases "b = h")
    case True
    define f' where "f' = f(forRevNum (h + 1) \<mapsto> enc_change (DocumentChange (h + 1) (Some now) d author),
                            REVISION_NUMBER \<mapsto> enc_revNum (h + 1))"
    have ap: "appendDelta A f (revNum base) d author now = (Inr (Some (h + 1)), f')"
      using assms(4,8) True free by (simp add: appendDelta_eq f'_def)
    have eq: "revNum base = revNum current"
      using assms(4,6) True by simp
    have res: "applyDeltaTo A f S base d author current expected now
                 = (Inr (Some (DeltaResult (h + 1) (EMPTY A)), S), f')"
      using applyDeltaTo_fast [OF eq ap, of S expected] by simp
    have "composed A f' (EMPTY A) 0 (h + 2) = compose A (composed A f (EMPTY A) 0 (h + 1)) d"
      using f'_def by (rule composed_appended)
    then have "compose A (contents expected) (EMPTY A) = composed A f' (EMPTY A) 0 (h + 2)"
      using assms(4,7,10) True by simp
    moreover have "head_of f' = Some (h + 1)"
      unfolding f'_def by (rule head_of_append)
    ultimately show ?thesis using res by blast
  next
    case False
    define dNext where "dNext = transform A (composed A f (EMPTY A) (b + 1) (h + 1)) d True"
    define f' where "f' = f(forRevNum (h + 1) \<mapsto> enc_change (DocumentChange (h + 1) (Some now) dNext author),
                            REVISION_NUMBER \<mapsto> enc_revNum (h + 1))"
    have lt: "revNum base < revNum current" and le: "revNum current \<le> h"
      using assms(4,5,6) False by simp_all
    have dN: "dNext = transform A (composed A f (EMPTY A) (revNum base + 1) (revNum current + 1)) d True"
      using assms(4,6) by (simp add: dNext_def)
    have ne: "\<not> isEmpty A dNext"
      using assms(9) by (simp add: dNext_def)
    have ap: "appendDelta A f (revNum current) dNext author now = (Inr (Some (h + 1)), f')"
      using ne free assms(6) by (simp add: appendDelta_eq f'_def)
    have hd': "head_of f' = Some (h + 1)"
      unfolding f'_def by (rule head_of_append)
    have ch': "changes_upto f' (h + 1)"
      unfolding f'_def using ch by (rule changes_upto_append)
    have ok': "cache_ok A f' S"
      unfolding cache_ok_def
    proof (intro allI impI)
      fix k v assume kv: "S k = Some v"
      with assms(3) have "k \<le> h" by blast
      then have "composed A f' (EMPTY A) 0 (Suc k) = composed A f (EMPTY A) 0 (Suc k)"
        unfolding f'_def by (intro composed_append) simp
      with kv assms(2) show "v = Snapshot k (composed A f' (EMPTY A) 0 (Suc k))"
        by (simp add: cache_ok_def)
    qed
    from snapshot_cache_ok [OF hd' ch' order_refl ok']
    obtain S' where sn: "snapshot A f' S (Some (h + 1))
                           = Inr (Snapshot (h + 1) (composed A f' (EMPTY A) 0 (h + 2)), S')"
      by simp
    have res: "applyDeltaTo A f S base d author current expected now
                 = (Inr (Some (DeltaResult (h + 1)
                      (diff A (contents expected) (composed A f' (EMPTY A) 0 (h + 2)))), S'), f')"
      using applyDeltaTo_rebase [OF hd ch lt le dN, of S author expected now] ne ap sn
      by simp
    have "composed A f' (EMPTY A) 0 (h + 2) = compose A (composed A f (EMPTY A) 0 (h + 1)) dNext"
      using f'_def by (rule composed_appended)
    with assms(13) have "isDocument A (composed A f' (EMPTY A) 0 (h + 2))"
      by (simp add: dNext_def)
    with assms(11,12) have
      "compose A (contents expected) (diff A (contents expected) (composed A f' (EMPTY A) 0 (h + 2)))
         = composed A f' (EMPTY A) 0 (h + 2)"
      by blast
    with res hd' show ?thesis by blast
  qed
qed

section \<open>Transaction specifications: wait operations\<close>

text \<open>
  C9. The claim: a transaction specification that holds a wait operation together with
  a read or a modification is rejected by the constructor. The code: the constructor
  accepts the specification of one wait and one read, because the comparison of
  \<open>waitCount\<close> (an array) with \<open>1\<close> never holds.
\<close>

theorem TransactionSpec_accepts_wait_with_read:
  "TransactionSpec [op_wait REVISION_NUMBER, op_readPath (forRevNum 0) :: (path, nat stored) FileOp]
     = Inr [op_readPath (forRevNum 0), op_wait REVISION_NUMBER]"
  by (simp add: TransactionSpec_def sortByCategory_def opsWithCategory_def opsWithName_def
      array_strict_eq_number_def array_to_number_def)

end
